theory Spec2Isabelle
  imports Main "HOL-Library.Word"
begin

section \<open>Data model of sshtun.go\<close>

text \<open>
  External values are opaque: the message of an error produced by the network or the SSH
  library, and handles of SSH sessions, listeners, accepted connections and callbacks.
\<close>

type_synonym cause = string
type_synonym client = nat
type_synonym listener = nat
type_synonym conn = nat
type_synonym callback = nat
type_synonym AuthMethod = nat

text \<open>
  A \<open>context.Context\<close> is either a root that is never cancelled or the child made by
  \<open>context.WithCancel\<close>, identified by the number of its cancel function. A context is
  done when its own cancel function, or that of an ancestor, has been called.
\<close>

datatype "context" = Background | WithCancel nat "context"

fun ctx_Done :: "nat set \<Rightarrow> context \<Rightarrow> bool" where
  "ctx_Done C Background = False"
| "ctx_Done C (WithCancel k p) = (k \<in> C \<or> ctx_Done C p)"

text \<open>\<open>ForwardType\<close> is a Go \<open>int\<close> with the constants \<open>Local = iota\<close> and \<open>Remote\<close>.\<close>

type_synonym ForwardType = int

definition Local :: ForwardType where
  "Local = 0"

definition Remote :: ForwardType where
  "Remote = 1"

datatype ConnState = StateStopped | StateStarting | StateStarted

datatype AuthType =
    AuthTypeKeyFile | AuthTypeEncryptedKeyFile | AuthTypeKeyReader
  | AuthTypeEncryptedKeyReader | AuthTypePassword | AuthTypeSSHAgent | AuthTypeAuto

text \<open>
  Modelled from the spec: the type \<open>Endpoint\<close> is declared outside sshtun.go. The spec
  gives it a kind (TCP or unix socket), a host, a port, or a socket path; sshtun.go
  assigns its fields \<open>host\<close> and \<open>port\<close> and builds it with \<open>NewTCPEndpoint\<close> and
  \<open>NewUnixEndpoint\<close>. Its formatting methods \<open>Type\<close> and \<open>String\<close> are not modelled:
  an error that prints them carries the endpoint itself.
\<close>

record Endpoint =
  host :: string
  port :: int
  unixSocket :: string

definition NewTCPEndpoint :: "string \<Rightarrow> int \<Rightarrow> Endpoint" where
  "NewTCPEndpoint h p = \<lparr>host = h, port = p, unixSocket = []\<rparr>"

definition NewUnixEndpoint :: "string \<Rightarrow> Endpoint" where
  "NewUnixEndpoint s = \<lparr>host = [], port = 0, unixSocket = s\<rparr>"

record ClientConfig =
  KeyExchanges :: "string list"
  Ciphers :: "string list"
  MACs :: "string list"
  User :: string
  Auth :: "AuthMethod list"
  Timeout :: int

text \<open>
  The struct \<open>SSHTun\<close>. The mutex is not a field of the model: a section of code that
  holds it is one atomic function. A nil pointer or nil function is \<open>None\<close>. The
  endpoints are pointers that every constructor sets; they are values here. \<open>active\<close>
  is a Go \<open>int\<close>, 64 bits wide, read as two's complement by \<open>sint\<close>.
\<close>

record SSHTun =
  ctx :: "context option"
  cancel :: "nat option"
  started :: bool
  user :: string
  authType :: AuthType
  authKeyFile :: string
  authKeyReader :: "string option"
  authPassword :: string
  server :: Endpoint
  local :: Endpoint
  remote :: Endpoint
  forwardType :: ForwardType
  timeout :: int
  connState :: "callback option"
  tunneledConnState :: "callback option"
  active :: "64 word"
  sshClient :: "client option"
  sshConfig :: "ClientConfig option"
  sshConfigKeyExchanges :: "string list"
  sshConfigCiphers :: "string list"
  sshConfigMACs :: "string list"
  name :: string

text \<open>
  The errors built by \<open>fmt.Errorf\<close>, one constructor for each format string, with the
  values printed into it and the wrapped cause:
  \<^item> \<open>AlreadyStarted\<close>: "already started"
  \<^item> \<open>SSHConfigFailed\<close>: "ssh config failed: %w"
  \<^item> \<open>LocalListenFailed\<close>: "local listen %s on %s failed: %w"
  \<^item> \<open>SSHDialFailed\<close>: "ssh dial %s to %s failed: %w"
  \<^item> \<open>RemoteListenFailed\<close>: "remote listen %s on %s failed: %w"
  \<^item> \<open>AcceptFailed\<close>: "%s accept %s on %s failed: %w"
  A Go \<open>error\<close> that is nil is \<open>None\<close>.
\<close>

datatype error =
    AlreadyStarted
  | SSHConfigFailed cause
  | LocalListenFailed Endpoint cause
  | SSHDialFailed Endpoint cause
  | RemoteListenFailed Endpoint cause
  | AcceptFailed string Endpoint cause

datatype panic = NilDereference

text \<open>
  Modelled from the spec: the type \<open>TunneledConnState\<close> is declared outside sshtun.go.
  The spec gives it a state tag (Started, Stopped or Error) and an optional error.
\<close>

datatype TunneledConnState = ConnStarted | ConnStopped | ConnError cause

text \<open>
  What the tunnel does to the outside world, in the order it does it: the calls of the
  two callbacks, the dials of the SSH server with their results, and the closes of an SSH
  session.
\<close>

datatype event =
    ConnStateCall ConnState
  | TunneledConnStateCall conn TunneledConnState
  | SSHDial Endpoint "cause + client"
  | SSHClose client

text \<open>
  The state the functions of the tunnel work on: the struct, the set of cancel functions
  called so far, the number of the next cancel function, and the events so far.
\<close>

record world =
  tun :: SSHTun
  cancelled :: "nat set"
  next_ctx :: nat
  events :: "event list"

section \<open>Constructors and setters\<close>

text \<open>\<open>New\<close> with \<open>defaultSSHTun\<close> inlined; the fields it leaves out are zero.\<close>

definition New :: "int \<Rightarrow> string \<Rightarrow> int \<Rightarrow> SSHTun" where
  "New localPort srv remotePort =
     \<lparr>ctx = None, cancel = None, started = False, user = ''root'',
      authType = AuthTypeAuto, authKeyFile = [], authKeyReader = None, authPassword = [],
      server = NewTCPEndpoint srv 22,
      local = NewTCPEndpoint ''localhost'' localPort,
      remote = NewTCPEndpoint ''localhost'' remotePort,
      forwardType = Local, timeout = 15 * 1000000000,
      connState = None, tunneledConnState = None, active = 0, sshClient = None,
      sshConfig = None, sshConfigKeyExchanges = [], sshConfigCiphers = [],
      sshConfigMACs = [], name = []\<rparr>"

definition SetForwardType :: "ForwardType \<Rightarrow> SSHTun \<Rightarrow> SSHTun" where
  "SetForwardType ft t = t\<lparr>forwardType := ft\<rparr>"

definition NewRemote :: "int \<Rightarrow> string \<Rightarrow> int \<Rightarrow> SSHTun" where
  "NewRemote localPort srv remotePort = (New localPort srv remotePort)\<lparr>forwardType := Remote\<rparr>"

definition SetConnState :: "callback \<Rightarrow> SSHTun \<Rightarrow> SSHTun" where
  "SetConnState f t = t\<lparr>connState := Some f\<rparr>"

definition SetTunneledConnState :: "callback \<Rightarrow> SSHTun \<Rightarrow> SSHTun" where
  "SetTunneledConnState f t = t\<lparr>tunneledConnState := Some f\<rparr>"

definition new_world :: "SSHTun \<Rightarrow> world" where
  "new_world t = \<lparr>tun = t, cancelled = {}, next_ctx = 0, events = []\<rparr>"

section \<open>Endpoints and names by forward type\<close>

definition fromEndpoint :: "SSHTun \<Rightarrow> Endpoint" where
  "fromEndpoint t = (if forwardType t = Remote then remote t else local t)"

definition toEndpoint :: "SSHTun \<Rightarrow> Endpoint" where
  "toEndpoint t = (if forwardType t = Remote then local t else remote t)"

definition forwardFromName :: "SSHTun \<Rightarrow> string" where
  "forwardFromName t = (if forwardType t = Remote then ''remote'' else ''local'')"

definition forwardToName :: "SSHTun \<Rightarrow> string" where
  "forwardToName t = (if forwardType t = Remote then ''local'' else ''remote'')"

text \<open>The other forward type, for the two declared constants.\<close>

definition flip :: "ForwardType \<Rightarrow> ForwardType" where
  "flip ft = (if ft = Remote then Local else Remote)"

section \<open>The connection count and the shared session\<close>

text \<open>
  \<open>addConn\<close>, under the mutex. Its first argument is what \<open>ssh.Dial\<close> answers if it is
  called.
\<close>

definition addConn :: "cause + client \<Rightarrow> world \<Rightarrow> error option \<times> world" where
  "addConn dialResult w =
     (let t = tun w in
      if forwardType t = Local \<and> active t = 0 then
        (case dialResult of
           Inl err \<Rightarrow>
             (Some (SSHDialFailed (server t) err),
              w\<lparr>events := events w @ [SSHDial (server t) (Inl err)]\<rparr>)
         | Inr c \<Rightarrow>
             (None,
              w\<lparr>tun := t\<lparr>sshClient := Some c, active := active t + 1\<rparr>,
                events := events w @ [SSHDial (server t) (Inr c)]\<rparr>))
      else (None, w\<lparr>tun := t\<lparr>active := active t + 1\<rparr>\<rparr>))"

text \<open>
  \<open>removeConn\<close>, under the mutex. \<open>tun.sshClient.Close()\<close> on a nil session is a nil
  pointer dereference.
\<close>

definition removeConn :: "world \<Rightarrow> panic + world" where
  "removeConn w =
     (let t = (tun w)\<lparr>active := active (tun w) - 1\<rparr> in
      if forwardType t = Local \<and> active t = 0 then
        (case sshClient t of
           None \<Rightarrow> Inl NilDereference
         | Some c \<Rightarrow>
             Inr (w\<lparr>tun := t\<lparr>sshClient := None\<rparr>, events := events w @ [SSHClose c]\<rparr>))
      else Inr (w\<lparr>tun := t\<rparr>))"

section \<open>Start and Stop\<close>

definition notify :: "ConnState \<Rightarrow> world \<Rightarrow> world" where
  "notify st w =
     (if connState (tun w) \<noteq> None then w\<lparr>events := events w @ [ConnStateCall st]\<rparr> else w)"

text \<open>
  The locked prologue of \<open>Start\<close>: the check of \<open>started\<close>, the flag and the new
  context. The result \<open>Some e\<close> is Start returning \<open>e\<close> at once.
\<close>

definition Start_lock :: "context \<Rightarrow> world \<Rightarrow> error option \<times> world" where
  "Start_lock parent w =
     (if started (tun w) then (Some AlreadyStarted, w)
      else (None,
            w\<lparr>tun := (tun w)\<lparr>started := True,
                               ctx := Some (WithCancel (next_ctx w) parent),
                               cancel := Some (next_ctx w)\<rparr>,
              next_ctx := Suc (next_ctx w)\<rparr>))"

text \<open>
  \<open>Stop\<close>, under the mutex. Calling a nil \<open>tun.cancel\<close> is a nil pointer dereference.
\<close>

definition Stop :: "world \<Rightarrow> panic + world" where
  "Stop w =
     (if started (tun w) then
        (case cancel (tun w) of
           None \<Rightarrow> Inl NilDereference
         | Some k \<Rightarrow> Inr (w\<lparr>cancelled := insert k (cancelled w)\<rparr>))
      else Inr w)"

fun Stop_times :: "nat \<Rightarrow> world \<Rightarrow> panic + world" where
  "Stop_times 0 w = Inr w"
| "Stop_times (Suc n) w = (case Stop w of Inl p \<Rightarrow> Inl p | Inr w' \<Rightarrow> Stop_times n w')"

text \<open>\<open>stop\<close>: the flag is cleared under the mutex, then the callback is told.\<close>

definition stop :: "error option \<Rightarrow> world \<Rightarrow> error option \<times> world" where
  "stop err w = (err, notify StateStopped (w\<lparr>tun := (tun w)\<lparr>started := False\<rparr>\<rparr>))"

text \<open>
  \<open>initSSHConfig\<close>. Its first argument is the result of \<open>getSSHAuthMethod\<close>, which is
  declared outside sshtun.go. The host key callback accepts every key and is left out.
\<close>

definition initSSHConfig :: "cause + AuthMethod \<Rightarrow> SSHTun \<Rightarrow> cause + ClientConfig" where
  "initSSHConfig authResult t =
     (case authResult of
        Inl err \<Rightarrow> Inl err
      | Inr authMethod \<Rightarrow>
          Inr \<lparr>KeyExchanges = sshConfigKeyExchanges t, Ciphers = sshConfigCiphers t,
               MACs = sshConfigMACs t, User = user t, Auth = [authMethod],
               Timeout = timeout t\<rparr>)"

text \<open>
  What the outside answers while Start sets up the listen side: the authentication
  method, the local \<open>Listen\<close>, the \<open>ssh.Dial\<close> of the server and the remote \<open>Listen\<close>.
\<close>

record setup_env =
  authResult :: "cause + AuthMethod"
  localListen :: "cause + listener"
  serverDial :: "cause + client"
  remoteListen :: "cause + listener"

text \<open>
  \<open>Start\<close> from the Starting notification to the listener. \<open>Inl r\<close> is Start returning
  \<open>r\<close> through \<open>stop\<close>; \<open>Inr l\<close> is the listener handed to \<open>listen\<close>, nil when the
  forward type is neither Local nor Remote.
\<close>

definition Start_setup ::
  "setup_env \<Rightarrow> world \<Rightarrow> (error option + listener option) \<times> world" where
  "Start_setup env w0 =
     (let w = notify StateStarting w0 in
      case initSSHConfig (authResult env) (tun w) of
        Inl err \<Rightarrow> (case stop (Some (SSHConfigFailed err)) w of (r, w') \<Rightarrow> (Inl r, w'))
      | Inr config \<Rightarrow>
          (let w1 = w\<lparr>tun := (tun w)\<lparr>sshConfig := Some config\<rparr>\<rparr>; t = tun w1 in
           if forwardType t = Local then
             (case localListen env of
                Inl err \<Rightarrow>
                  (case stop (Some (LocalListenFailed (local t) err)) w1 of
                     (r, w') \<Rightarrow> (Inl r, w'))
              | Inr l \<Rightarrow> (Inr (Some l), w1))
           else if forwardType t = Remote then
             (let w2 = w1\<lparr>events := events w1 @ [SSHDial (server t) (serverDial env)]\<rparr> in
              case serverDial env of
                Inl err \<Rightarrow>
                  (case stop (Some (SSHDialFailed (server t) err)) w2 of
                     (r, w') \<Rightarrow> (Inl r, w'))
              | Inr c \<Rightarrow>
                  (case remoteListen env of
                     Inl err \<Rightarrow>
                       (case stop (Some (RemoteListenFailed (remote t) err)) w2 of
                          (r, w') \<Rightarrow> (Inl r, w'))
                   | Inr l \<Rightarrow> (Inr (Some l), w2)))
           else (Inr None, w1)))"

text \<open>Start up to the point where it either has returned or holds its listener.\<close>

definition Start_prefix ::
  "context \<Rightarrow> setup_env \<Rightarrow> world \<Rightarrow> (error option + listener option) \<times> world" where
  "Start_prefix parent env w =
     (case Start_lock parent w of
        (Some e, w') \<Rightarrow> (Inl (Some e), w')
      | (None, w') \<Rightarrow> Start_setup env w')"

text \<open>The tunnel states delivered to the callback, in order.\<close>

fun conn_states :: "event list \<Rightarrow> ConnState list" where
  "conn_states [] = []"
| "conn_states (ConnStateCall st # es) = st # conn_states es"
| "conn_states (e # es) = conn_states es"

section \<open>Sequences of addConn and removeConn\<close>

text \<open>
  The calls of \<open>addConn\<close> and \<open>removeConn\<close> in the order the mutex serialises them.
  \<open>Acquire\<close> carries what \<open>ssh.Dial\<close> answers if it is called. A run keeps the number
  of connections held: those whose \<open>addConn\<close> returned nil and that have not called
  \<open>removeConn\<close> yet. A \<open>Release\<close> with nothing held is not a call that \<open>handle\<close>
  makes (\<open>Unmatched\<close>); a panic ends the run (\<open>Crashed\<close>).
\<close>

datatype pool_op = Acquire "cause + client" | Release

datatype pool_result = Unmatched | Crashed panic | Pool nat world

fun pool_step :: "pool_op \<Rightarrow> nat \<Rightarrow> world \<Rightarrow> pool_result" where
  "pool_step (Acquire d) h w =
     (case addConn d w of (None, w') \<Rightarrow> Pool (Suc h) w' | (Some e, w') \<Rightarrow> Pool h w')"
| "pool_step Release h w =
     (if h = 0 then Unmatched
      else case removeConn w of Inl p \<Rightarrow> Crashed p | Inr w' \<Rightarrow> Pool (h - 1) w')"

fun pool_run :: "pool_op list \<Rightarrow> nat \<Rightarrow> world \<Rightarrow> pool_result" where
  "pool_run [] h w = Pool h w"
| "pool_run (x # xs) h w =
     (case pool_step x h w of Pool h' w' \<Rightarrow> pool_run xs h' w' | r \<Rightarrow> r)"

text \<open>The sessions opened (dials that succeeded) and closed among some events.\<close>

fun opened :: "event list \<Rightarrow> nat" where
  "opened [] = 0"
| "opened (SSHDial ep (Inr c) # es) = Suc (opened es)"
| "opened (e # es) = opened es"

fun closes :: "event list \<Rightarrow> nat" where
  "closes [] = 0"
| "closes (SSHClose c # es) = Suc (closes es)"
| "closes (e # es) = closes es"

text \<open>What holds between the calls, for the number \<open>h\<close> of connections held.\<close>

definition pool_inv :: "nat \<Rightarrow> world \<Rightarrow> bool" where
  "pool_inv h w =
     (h < 2 ^ 63 \<and> active (tun w) = of_nat h \<and> (sshClient (tun w) = None \<longleftrightarrow> h = 0))"

section \<open>The goroutines of one call of Start\<close>

text \<open>
  One call of \<open>Start\<close> runs the calling goroutine, the goroutine of \<open>listen\<close>, the
  accept loop and one goroutine of \<open>handle\<close> for each accepted connection. Each is a
  program counter; a step of the system is one goroutine moving to its next program
  counter, in any order the scheduler picks. Code under the mutex is one step.
\<close>

datatype main_pc =
    M_Enter | M_Setup | M_Spawn | M_NotifyStarted | M_Recv | M_Returned "error option"

datatype listen_pc =
    L_NotSpawned | L_Init | L_WaitDone | L_Wait | L_Select "error option"
  | L_Send "error option" | L_Done

datatype accept_pc = A_NotSpawned | A_Running | A_Done error

datatype handle_pc = H_AddConn | H_Forward | H_Forwarding | H_RemoveConn | H_Done "error option"

text \<open>
  Beside the program counters: the listener of Start (nil is \<open>None\<close>) and whether it is
  closed; the error group of \<open>listen\<close>, that is its first error \<open>gerr\<close>, whether its
  context was cancelled by an error or by \<open>Wait\<close>, and the context it was derived from;
  what the final \<open>select\<close> of \<open>listen\<close> saw of \<open>tun.ctx.Done()\<close>, a record kept for
  the invariants that no step reads; and the panic that ended the process, if any.
\<close>

record sys =
  wld :: world
  mainpc :: main_pc
  listenpc :: listen_pc
  acceptpc :: accept_pc
  handlers :: "(conn \<times> handle_pc) list"
  lis :: "listener option"
  closed :: bool
  gerr :: "error option"
  gcancelled :: bool
  gctx :: "context option"
  ctx_seen :: "bool option"
  crashed :: "panic option"

definition init_sys :: "world \<Rightarrow> sys" where
  "init_sys w0 =
     \<lparr>wld = w0, mainpc = M_Enter, listenpc = L_NotSpawned, acceptpc = A_NotSpawned,
      handlers = [], lis = None, closed = False, gerr = None, gcancelled = False,
      gctx = None, ctx_seen = None, crashed = None\<rparr>"

text \<open>
  A function started with \<open>errGroup.Go\<close> returns: the first error that is not nil is
  kept and cancels the context of the group.
\<close>

definition group_return :: "error option \<Rightarrow> sys \<Rightarrow> sys" where
  "group_return r s =
     (case r of
        None \<Rightarrow> s
      | Some e \<Rightarrow> s\<lparr>gerr := (if gerr s = None then Some e else gerr s), gcancelled := True\<rparr>)"

definition panics :: "panic \<Rightarrow> sys \<Rightarrow> sys" where
  "panics p s = s\<lparr>crashed := Some p\<rparr>"

definition handler_at :: "nat \<Rightarrow> handle_pc \<Rightarrow> sys \<Rightarrow> bool" where
  "handler_at i pc s = (i < length (handlers s) \<and> snd (handlers s ! i) = pc)"

definition set_handler :: "nat \<Rightarrow> handle_pc \<Rightarrow> sys \<Rightarrow> sys" where
  "set_handler i pc s = s\<lparr>handlers := (handlers s)[i := (fst (handlers s ! i), pc)]\<rparr>"

definition handler_done :: "conn \<times> handle_pc \<Rightarrow> bool" where
  "handler_done h = (case snd h of H_Done r \<Rightarrow> True | _ \<Rightarrow> False)"

definition accept_done :: "accept_pc \<Rightarrow> bool" where
  "accept_done pc = (case pc of A_Done e \<Rightarrow> True | _ \<Rightarrow> False)"

text \<open>
  Modelled from the spec: \<open>forward\<close> is declared outside sshtun.go. The spec says it
  emits a TunneledConnState notification at its start and one at its end, carrying any
  terminal error, through the optional connection-state callback.
\<close>

definition forward_begin :: "conn \<Rightarrow> world \<Rightarrow> world" where
  "forward_begin c w =
     (if tunneledConnState (tun w) \<noteq> None
      then w\<lparr>events := events w @ [TunneledConnStateCall c ConnStarted]\<rparr> else w)"

definition forward_end :: "conn \<Rightarrow> cause option \<Rightarrow> world \<Rightarrow> world" where
  "forward_end c r w =
     (if tunneledConnState (tun w) \<noteq> None
      then w\<lparr>events := events w @
             [TunneledConnStateCall c (case r of None \<Rightarrow> ConnStopped | Some e \<Rightarrow> ConnError e)]\<rparr>
      else w)"

text \<open>
  The steps. Those of the caller of Start: \<open>CallStart\<close> (the locked prologue),
  \<open>Setup\<close> (up to the listener, or to the return through \<open>stop\<close>), \<open>Spawn\<close> (the
  \<open>go\<close> statement), \<open>NotifyStarted\<close>, \<open>Receive\<close> (the receive from \<open>errChan\<close> and
  \<open>stop\<close>). Those of \<open>listen\<close>: \<open>ListenInit\<close> (the error group and the accept loop),
  \<open>ListenWake\<close> (the group's context is done; the listener is closed), \<open>ListenWait\<close>
  (\<open>errGroup.Wait\<close>), \<open>ListenSelect\<close> (the final \<open>select\<close>). \<open>Accept\<close> is one turn of
  the accept loop with the answer of \<open>listener.Accept\<close>. Those of \<open>handle\<close> for the
  connection at an index: \<open>AddConn\<close> with the answer of \<open>ssh.Dial\<close>, \<open>ForwardBegin\<close>,
  \<open>ForwardEnd\<close>, \<open>RemoveConn\<close>. Those of other goroutines of the program: \<open>CallStop\<close>,
  \<open>OtherStart\<close> (a call of Start while this one runs; one that finds \<open>started\<close> false
  would begin a second run and is left out) and \<open>Cancel\<close> (a cancel function that
  exists, other than the tunnel's own, is called: the context given to Start or one of
  its ancestors).

  \<open>Setup\<close> and \<open>Receive\<close> are one step each although only part of them holds the
  mutex: during \<open>Setup\<close> no other goroutine of this call exists, at \<open>Receive\<close> all of
  them have ended, and a \<open>Stop\<close> or Start of another goroutine in between only cancels
  the context or returns "already started", which neither of the two reads. A step
  without a precondition that holds does not happen (\<open>None\<close>): a goroutine that waits
  stays where it is. The context given to Start is not nil.
\<close>

datatype action =
    CallStart "context"
  | Setup setup_env
  | Spawn
  | NotifyStarted
  | Receive
  | ListenInit
  | ListenWake
  | ListenWait
  | ListenSelect
  | Accept "cause + conn"
  | AddConn nat "cause + client"
  | ForwardBegin nat
  | ForwardEnd nat "cause option"
  | RemoveConn nat
  | CallStop
  | OtherStart "context"
  | Cancel nat

fun step :: "action \<Rightarrow> sys \<Rightarrow> sys option" where
  "step (CallStart parent) s =
     (if mainpc s = M_Enter then
        (case Start_lock parent (wld s) of
           (Some e, w') \<Rightarrow> Some (s\<lparr>wld := w', mainpc := M_Returned (Some e)\<rparr>)
         | (None, w') \<Rightarrow> Some (s\<lparr>wld := w', mainpc := M_Setup\<rparr>))
      else None)"
| "step (Setup env) s =
     (if mainpc s = M_Setup then
        (case Start_setup env (wld s) of
           (Inl r, w') \<Rightarrow> Some (s\<lparr>wld := w', mainpc := M_Returned r\<rparr>)
         | (Inr l, w') \<Rightarrow> Some (s\<lparr>wld := w', mainpc := M_Spawn, lis := l\<rparr>))
      else None)"
| "step Spawn s =
     (if mainpc s = M_Spawn
      then Some (s\<lparr>mainpc := M_NotifyStarted, listenpc := L_Init\<rparr>) else None)"
| "step NotifyStarted s =
     (if mainpc s = M_NotifyStarted
      then Some (s\<lparr>wld := notify StateStarted (wld s), mainpc := M_Recv\<rparr>) else None)"
| "step Receive s =
     (if mainpc s = M_Recv then
        (case listenpc s of
           L_Send r \<Rightarrow>
             (case stop r (wld s) of
                (r', w') \<Rightarrow> Some (s\<lparr>wld := w', mainpc := M_Returned r', listenpc := L_Done\<rparr>))
         | _ \<Rightarrow> None)
      else None)"
| "step ListenInit s =
     (if listenpc s = L_Init then
        (case ctx (tun (wld s)) of
           None \<Rightarrow> Some (panics NilDereference s)
         | Some c \<Rightarrow> Some (s\<lparr>listenpc := L_WaitDone, acceptpc := A_Running, gctx := Some c\<rparr>))
      else None)"
| "step ListenWake s =
     (if listenpc s = L_WaitDone then
        (case gctx s of
           None \<Rightarrow> None
         | Some c \<Rightarrow>
             if gcancelled s \<or> ctx_Done (cancelled (wld s)) c then
               (case lis s of
                  None \<Rightarrow> Some (panics NilDereference s)
                | Some l \<Rightarrow> Some (s\<lparr>listenpc := L_Wait, closed := True\<rparr>))
             else None)
      else None)"
| "step ListenWait s =
     (if listenpc s = L_Wait \<and> accept_done (acceptpc s) \<and> list_all handler_done (handlers s)
      then Some (s\<lparr>listenpc := L_Select (gerr s), gcancelled := True\<rparr>) else None)"
| "step ListenSelect s =
     (case listenpc s of
        L_Select err \<Rightarrow>
          (case ctx (tun (wld s)) of
             None \<Rightarrow> Some (panics NilDereference s)
           | Some c \<Rightarrow>
               if ctx_Done (cancelled (wld s)) c
               then Some (s\<lparr>listenpc := L_Send None, ctx_seen := Some True\<rparr>)
               else Some (s\<lparr>listenpc := L_Send err, ctx_seen := Some False\<rparr>))
      | _ \<Rightarrow> None)"
| "step (Accept res) s =
     (if acceptpc s = A_Running then
        (case lis s of
           None \<Rightarrow> Some (panics NilDereference s)
         | Some l \<Rightarrow>
             (case res of
                Inl err \<Rightarrow>
                  (let e = AcceptFailed (forwardFromName (tun (wld s)))
                                        (fromEndpoint (tun (wld s))) err
                   in Some (group_return (Some e) (s\<lparr>acceptpc := A_Done e\<rparr>)))
              | Inr c \<Rightarrow> Some (s\<lparr>handlers := handlers s @ [(c, H_AddConn)]\<rparr>)))
      else None)"
| "step (AddConn i dialResult) s =
     (if handler_at i H_AddConn s then
        (case addConn dialResult (wld s) of
           (Some e, w') \<Rightarrow>
             Some (group_return (Some e) (set_handler i (H_Done (Some e)) (s\<lparr>wld := w'\<rparr>)))
         | (None, w') \<Rightarrow> Some (set_handler i H_Forward (s\<lparr>wld := w'\<rparr>)))
      else None)"
| "step (ForwardBegin i) s =
     (if handler_at i H_Forward s
      then Some (set_handler i H_Forwarding
                   (s\<lparr>wld := forward_begin (fst (handlers s ! i)) (wld s)\<rparr>))
      else None)"
| "step (ForwardEnd i r) s =
     (if handler_at i H_Forwarding s
      then Some (set_handler i H_RemoveConn
                   (s\<lparr>wld := forward_end (fst (handlers s ! i)) r (wld s)\<rparr>))
      else None)"
| "step (RemoveConn i) s =
     (if handler_at i H_RemoveConn s then
        (case removeConn (wld s) of
           Inl p \<Rightarrow> Some (panics p s)
         | Inr w' \<Rightarrow> Some (group_return None (set_handler i (H_Done None) (s\<lparr>wld := w'\<rparr>))))
      else None)"
| "step CallStop s =
     (case Stop (wld s) of
        Inl p \<Rightarrow> Some (panics p s)
      | Inr w' \<Rightarrow> Some (s\<lparr>wld := w'\<rparr>))"
| "step (OtherStart parent) s =
     (case Start_lock parent (wld s) of
        (Some e, w') \<Rightarrow> Some (s\<lparr>wld := w'\<rparr>)
      | (None, w') \<Rightarrow> None)"
| "step (Cancel k) s =
     (if k < next_ctx (wld s) \<and> cancel (tun (wld s)) \<noteq> Some k
      then Some (s\<lparr>wld := (wld s)\<lparr>cancelled := insert k (cancelled (wld s))\<rparr>\<rparr>)
      else None)"

text \<open>A panic ends the process: nothing runs after it.\<close>

definition exec :: "action \<Rightarrow> sys \<Rightarrow> sys option" where
  "exec a s = (if crashed s \<noteq> None then None else step a s)"

fun run :: "action list \<Rightarrow> sys \<Rightarrow> sys option" where
  "run [] s = Some s"
| "run (a # as) s = (case exec a s of None \<Rightarrow> None | Some s' \<Rightarrow> run as s')"

section \<open>Invariants of a run\<close>

text \<open>\<open>tun.ctx\<close> is done (a nil context is never done).\<close>

definition tun_ctx_done :: "world \<Rightarrow> bool" where
  "tun_ctx_done w =
     (case ctx (tun w) of None \<Rightarrow> False | Some c \<Rightarrow> ctx_Done (cancelled w) c)"

text \<open>
  What no function called during a run changes, once the locked prologue of Start is
  over: the context and its cancel function, the cancelled contexts, the endpoints, the
  forward type and the callbacks.
\<close>

definition same_setup :: "world \<Rightarrow> world \<Rightarrow> bool" where
  "same_setup w w' =
     (ctx (tun w') = ctx (tun w) \<and> cancel (tun w') = cancel (tun w)
      \<and> cancelled w' = cancelled w \<and> next_ctx w' = next_ctx w
      \<and> server (tun w') = server (tun w) \<and> local (tun w') = local (tun w)
      \<and> remote (tun w') = remote (tun w) \<and> forwardType (tun w') = forwardType (tun w)
      \<and> connState (tun w') = connState (tun w)
      \<and> tunneledConnState (tun w') = tunneledConnState (tun w))"

text \<open>How far \<open>listen\<close> has come, and whether the caller of Start is past its \<open>go\<close>.\<close>

fun lrank :: "listen_pc \<Rightarrow> nat" where
  "lrank L_NotSpawned = 0"
| "lrank L_Init = 1"
| "lrank L_WaitDone = 2"
| "lrank L_Wait = 3"
| "lrank (L_Select e) = 4"
| "lrank (L_Send r) = 5"
| "lrank L_Done = 6"

fun main_spawned :: "main_pc \<Rightarrow> bool" where
  "main_spawned M_NotifyStarted = True"
| "main_spawned M_Recv = True"
| "main_spawned (M_Returned r) = True"
| "main_spawned pc = False"

text \<open>
  The value \<open>listen\<close> returns fits what its final \<open>select\<close> saw: nil when \<open>tun.ctx\<close>
  was done, the error of the group otherwise.
\<close>

definition result_ok :: "error option \<Rightarrow> sys \<Rightarrow> bool" where
  "result_ok r s =
     ((ctx_seen s = Some True \<and> r = None \<and> tun_ctx_done (wld s))
      \<or> (ctx_seen s = Some False \<and> (\<exists>e. r = Some e \<and> gerr s = Some e)))"

text \<open>
  The order in which the goroutines come to life: \<open>listen\<close> after the \<open>go\<close> of Start,
  the accept loop after the error group, a \<open>handle\<close> after an accept; the group's context
  is derived from \<open>tun.ctx\<close>.
\<close>

definition inv_threads :: "sys \<Rightarrow> bool" where
  "inv_threads s =
     ((0 < lrank (listenpc s) \<longrightarrow> main_spawned (mainpc s))
      \<and> (2 \<le> lrank (listenpc s) \<longrightarrow>
            gctx s = ctx (tun (wld s)) \<and> ctx (tun (wld s)) \<noteq> None)
      \<and> (acceptpc s \<noteq> A_NotSpawned \<longrightarrow> 2 \<le> lrank (listenpc s))
      \<and> (handlers s \<noteq> [] \<longrightarrow> acceptpc s \<noteq> A_NotSpawned))"

text \<open>
  The error group and the result of \<open>listen\<close>: before \<open>Wait\<close> the group is cancelled only
  by an error; \<open>listen\<close> passes \<open>Done\<close> only with \<open>tun.ctx\<close> done or an error in the
  group; the value sent on \<open>errChan\<close>, and returned by Start, fits the final \<open>select\<close>;
  a return of Start before \<open>listen\<close> exists is an error.
\<close>

definition inv_group :: "sys \<Rightarrow> bool" where
  "inv_group s =
     ((gcancelled s \<longrightarrow> gerr s \<noteq> None \<or> 4 \<le> lrank (listenpc s))
      \<and> (listenpc s = L_Wait \<longrightarrow> tun_ctx_done (wld s) \<or> gerr s \<noteq> None)
      \<and> (\<forall>err. listenpc s = L_Select err \<longrightarrow>
            (err = None \<longrightarrow> tun_ctx_done (wld s)) \<and> (\<forall>e. err = Some e \<longrightarrow> gerr s = Some e))
      \<and> (\<forall>r. listenpc s = L_Send r \<longrightarrow> result_ok r s)
      \<and> (\<forall>r. mainpc s = M_Returned r \<longrightarrow>
            (if listenpc s = L_Done then result_ok r s
             else r \<noteq> None \<and> ctx_seen s = None \<and> listenpc s = L_NotSpawned))
      \<and> (lrank (listenpc s) \<le> 4 \<longrightarrow> ctx_seen s = None))"

text \<open>A step that moves neither the caller of Start nor listen.\<close>

definition quiet :: "sys \<Rightarrow> sys \<Rightarrow> bool" where
  "quiet s s' =
     (listenpc s' = listenpc s \<and> (\<forall>r. mainpc s' = M_Returned r \<longrightarrow> mainpc s = M_Returned r)
      \<and> ctx_seen s' = ctx_seen s
      \<and> (\<forall>e. gerr s = Some e \<longrightarrow> gerr s' = Some e)
      \<and> (gcancelled s' \<longrightarrow> gcancelled s \<or> gerr s' \<noteq> None)
      \<and> (tun_ctx_done (wld s) \<longrightarrow> tun_ctx_done (wld s')))"

text \<open>
  Where the errors of the group come from: the accept loop returns only accept errors, a
  \<open>handle\<close> only the dial error of \<open>addConn\<close>; the group's error is one of them; and once
  any of them has returned an error the group holds one and is cancelled.
\<close>

definition inv_errors :: "sys \<Rightarrow> bool" where
  "inv_errors s =
     ((\<forall>e. acceptpc s = A_Done e \<longrightarrow>
          (\<exists>cs. e = AcceptFailed (forwardFromName (tun (wld s))) (fromEndpoint (tun (wld s))) cs))
      \<and> (\<forall>i e. i < length (handlers s) \<and> snd (handlers s ! i) = H_Done (Some e) \<longrightarrow>
            (\<exists>cs. e = SSHDialFailed (server (tun (wld s))) cs))
      \<and> (\<forall>e. gerr s = Some e \<longrightarrow>
            acceptpc s = A_Done e
            \<or> (\<exists>i. i < length (handlers s) \<and> snd (handlers s ! i) = H_Done (Some e)))
      \<and> (accept_done (acceptpc s)
            \<or> (\<exists>i e. i < length (handlers s) \<and> snd (handlers s ! i) = H_Done (Some e))
          \<longrightarrow> gerr s \<noteq> None \<and> gcancelled s))"

text \<open>A step that touches neither the group nor its goroutines.\<close>

definition same_errs :: "sys \<Rightarrow> sys \<Rightarrow> bool" where
  "same_errs s s' =
     (acceptpc s' = acceptpc s \<and> handlers s' = handlers s \<and> gerr s' = gerr s
      \<and> (gcancelled s \<longrightarrow> gcancelled s')
      \<and> server (tun (wld s')) = server (tun (wld s))
      \<and> local (tun (wld s')) = local (tun (wld s))
      \<and> remote (tun (wld s')) = remote (tun (wld s))
      \<and> forwardType (tun (wld s')) = forwardType (tun (wld s)))"

text \<open>
  \<open>notified_before st es\<close>: in \<open>es\<close> no notification of a connection comes before the
  first notification of the tunnel state \<open>st\<close>.
\<close>

fun is_tunneled :: "event \<Rightarrow> bool" where
  "is_tunneled (TunneledConnStateCall c st) = True"
| "is_tunneled e = False"

fun notified_before :: "ConnState \<Rightarrow> event list \<Rightarrow> bool" where
  "notified_before st [] = True"
| "notified_before st (e # es) =
     (if e = ConnStateCall st then True
      else if is_tunneled e then False
      else notified_before st es)"

text \<open>
  Start holds its listener. From then on, with a tunnel-state callback registered,
  Starting is among the events of the run \<open>new\<close>, and it comes before the notifications
  of connections.
\<close>

definition setup_done :: "sys \<Rightarrow> bool" where
  "setup_done s = (mainpc s = M_Spawn \<or> 0 < lrank (listenpc s))"

definition inv_order :: "world \<Rightarrow> sys \<Rightarrow> bool" where
  "inv_order w0 s =
     (connState (tun (wld s)) = connState (tun w0)
      \<and> (\<exists>new. events (wld s) = events w0 @ new
            \<and> (connState (tun w0) \<noteq> None \<longrightarrow>
                 notified_before StateStarting new
                 \<and> (setup_done s \<longrightarrow> ConnStateCall StateStarting \<in> set new))))"

text \<open>
  What one step adds to the events: a notification of a connection only when a
  \<open>handle\<close> exists, and Starting in the step that gives Start its listener. A function is
  \<open>plain\<close> when it adds no notification of a connection.
\<close>

definition step_order :: "sys \<Rightarrow> sys \<Rightarrow> bool" where
  "step_order s s' =
     (connState (tun (wld s')) = connState (tun (wld s))
      \<and> (\<exists>ev. events (wld s') = events (wld s) @ ev
            \<and> (list_ex is_tunneled ev \<longrightarrow> handlers s \<noteq> [])
            \<and> (setup_done s' \<and> \<not> setup_done s \<and> connState (tun (wld s)) \<noteq> None \<longrightarrow>
                 ConnStateCall StateStarting \<in> set ev)))"

definition plain :: "world \<Rightarrow> world \<Rightarrow> bool" where
  "plain w w' = (\<exists>ev. events w' = events w @ ev \<and> \<not> list_ex is_tunneled ev)"

definition run_inv :: "world \<Rightarrow> sys \<Rightarrow> bool" where
  "run_inv w0 s = (inv_threads s \<and> inv_group s \<and> inv_errors s \<and> inv_order w0 s)"

text \<open>The cancel function is set whenever \<open>started\<close> is.\<close>

definition cancel_set :: "world \<Rightarrow> bool" where
  "cancel_set w = (started (tun w) \<longrightarrow> cancel (tun w) \<noteq> None)"

definition keeps_cancel :: "world \<Rightarrow> world \<Rightarrow> bool" where
  "keeps_cancel w w' =
     (cancel (tun w') = cancel (tun w) \<and> (started (tun w') \<longrightarrow> started (tun w)))"

section \<open>Concrete tunnels and schedules\<close>

text \<open>
  The tunnel of the example program, with both callbacks set, answers of the outside for
  a set-up that succeeds and for one whose local listener cannot be bound, and schedules:
  a dial that fails in \<open>addConn\<close>, a connection served before the caller of Start runs
  on, a run ended by \<open>Stop\<close>, and an accept that fails; the first, third and fourth also
  up to the return of \<open>errGroup.Wait\<close>, that is without the final \<open>select\<close> and the
  receive; an accept that fails followed by a \<open>Stop\<close> before the final \<open>select\<close>; and a
  \<open>Stop\<close> between the prologue of Start and a bind that fails.
\<close>

definition env_ok :: setup_env where
  "env_ok = \<lparr>authResult = Inr 7, localListen = Inr 3, serverDial = Inr 5, remoteListen = Inr 4\<rparr>"

definition tun_demo :: SSHTun where
  "tun_demo = SetTunneledConnState 2 (SetConnState 1 (New 8080 ''my.super.host.com'' 80))"

definition sched_dial_fails :: "action list" where
  "sched_dial_fails =
     [CallStart Background, Setup env_ok, Spawn, NotifyStarted, ListenInit, Accept (Inr 0),
      AddConn 0 (Inl ''refused''), ListenWake, Accept (Inl ''closed''), ListenWait,
      ListenSelect, Receive]"

definition sched_conn_first :: "action list" where
  "sched_conn_first =
     [CallStart Background, Setup env_ok, Spawn, ListenInit, Accept (Inr 0),
      AddConn 0 (Inr 9), ForwardBegin 0, NotifyStarted]"

definition sched_stopped :: "action list" where
  "sched_stopped =
     [CallStart Background, Setup env_ok, Spawn, NotifyStarted, ListenInit, Accept (Inr 0),
      AddConn 0 (Inr 9), ForwardBegin 0, ForwardEnd 0 None, RemoveConn 0, CallStop, CallStop,
      ListenWake, Accept (Inl ''closed''), ListenWait, ListenSelect, Receive]"

definition sched_accept_fails :: "action list" where
  "sched_accept_fails =
     [CallStart Background, Setup env_ok, Spawn, NotifyStarted, ListenInit,
      Accept (Inl ''too many open files''), ListenWake, ListenWait, ListenSelect, Receive]"

definition env_listen_fails :: setup_env where
  "env_listen_fails =
     \<lparr>authResult = Inr 7, localListen = Inl ''address already in use'',
      serverDial = Inr 5, remoteListen = Inr 4\<rparr>"

definition sched_accept_failed :: "action list" where
  "sched_accept_failed =
     [CallStart Background, Setup env_ok, Spawn, NotifyStarted, ListenInit,
      Accept (Inl ''too many open files''), ListenWake, ListenWait]"

definition sched_late_stop :: "action list" where
  "sched_late_stop = sched_accept_failed @ [CallStop, ListenSelect, Receive]"

definition sched_stop_before_setup :: "action list" where
  "sched_stop_before_setup = [CallStart Background, CallStop, Setup env_listen_fails]"

definition sched_dial_failed :: "action list" where
  "sched_dial_failed =
     [CallStart Background, Setup env_ok, Spawn, NotifyStarted, ListenInit, Accept (Inr 0),
      AddConn 0 (Inl ''refused''), ListenWake, Accept (Inl ''closed''), ListenWait]"

definition sched_stop_waited :: "action list" where
  "sched_stop_waited =
     [CallStart Background, Setup env_ok, Spawn, NotifyStarted, ListenInit, Accept (Inr 0),
      AddConn 0 (Inr 9), ForwardBegin 0, ForwardEnd 0 None, RemoveConn 0, CallStop, CallStop,
      ListenWake, Accept (Inl ''closed''), ListenWait]"

definition w_local :: world where
  "w_local = new_world (New 8080 ''my.super.host.com'' 80)"

section \<open>Lemmas about the sequential functions\<close>

lemma conn_states_append: "conn_states (xs @ ys) = conn_states xs @ conn_states ys"
  by (induction xs rule: conn_states.induct) simp_all

lemma of_nat_eq_0: "h < 2 ^ 63 \<Longrightarrow> (of_nat h :: 64 word) = 0 \<longleftrightarrow> h = 0"
proof
  assume b: "h < 2 ^ 63" and "(of_nat h :: 64 word) = 0"
  then have d: "(2::nat) ^ 64 dvd h" by (simp add: word_of_nat_eq_0_iff)
  show "h = 0"
  proof (rule ccontr)
    assume "h \<noteq> 0"
    with d have "(2::nat) ^ 64 \<le> h" by (auto dest: dvd_imp_le)
    with b show False by simp
  qed
qed simp

lemma sint_of_nat: "h < 2 ^ 63 \<Longrightarrow> sint (of_nat h :: 64 word) = int h"
proof -
  assume "h < 2 ^ 63"
  then have "int h < 2 ^ 63" by (metis of_nat_less_iff of_nat_numeral of_nat_power)
  then show ?thesis
    by (simp add: signed_of_nat signed_take_bit_int_eq_self)
qed

lemma of_nat_pred: "0 < h \<Longrightarrow> (of_nat h :: 64 word) - 1 = of_nat (h - 1)"
  by simp

lemma opened_append: "opened (xs @ ys) = opened xs + opened ys"
  by (induction xs rule: opened.induct) simp_all

lemma closes_append: "closes (xs @ ys) = closes xs + closes ys"
  by (induction xs rule: closes.induct) simp_all

lemma pool_step_inv:
  assumes "forwardType (tun w) = Local" "pool_inv h w" "Suc h < 2 ^ 63"
      and "pool_step x h w \<noteq> Unmatched"
  shows "\<exists>h' w'. pool_step x h w = Pool h' w' \<and> pool_inv h' w' \<and> forwardType (tun w') = Local
     \<and> (\<exists>new. events w' = events w @ new
          \<and> opened new = (if h = 0 \<and> h' = 1 then 1 else 0)
          \<and> closes new = (if h = 1 \<and> h' = 0 then 1 else 0))"
proof (cases x)
  case (Acquire d)
  with assms show ?thesis
    by (cases d) (auto simp: pool_inv_def addConn_def Let_def of_nat_eq_0)
next
  case Release
  with assms have h: "0 < h" by (simp split: if_splits)
  then have a: "(of_nat h :: 64 word) - 1 = of_nat (h - 1)" by simp
  from assms(3) have b: "h - 1 < 2 ^ 63" by simp
  from h assms(2) obtain c where c: "sshClient (tun w) = Some c" by (auto simp: pool_inv_def)
  show ?thesis using Release assms(1,2) h c a of_nat_eq_0 [OF b]
    by (auto simp: pool_inv_def removeConn_def Let_def)
qed

lemma pool_run_append:
  "pool_run (xs @ ys) h w =
     (case pool_run xs h w of Pool h' w' \<Rightarrow> pool_run ys h' w' | r \<Rightarrow> r)"
  by (induction xs arbitrary: h w) (auto split: pool_result.splits)

lemma pool_step_held: "pool_step x h w = Pool h' w' \<Longrightarrow> h' \<le> Suc h \<and> h \<le> Suc h'"
  by (cases x) (auto split: prod.splits option.splits if_splits sum.splits)

lemma pool_run_inv:
  assumes "forwardType (tun w) = Local" "pool_inv h w" "h + length xs < 2 ^ 63"
      and "pool_run xs h w \<noteq> Unmatched"
  shows "\<exists>h' w'. pool_run xs h w = Pool h' w' \<and> pool_inv h' w' \<and> forwardType (tun w') = Local
     \<and> h' \<le> h + length xs
     \<and> (\<exists>new. events w' = events w @ new
          \<and> opened new + (if h = 0 then 0 else 1) = closes new + (if h' = 0 then 0 else 1))"
  using assms
proof (induction xs arbitrary: h w)
  case Nil
  then show ?case by simp
next
  case (Cons x xs)
  from Cons.prems(4) have nu: "pool_step x h w \<noteq> Unmatched"
    by (auto split: pool_result.splits)
  from Cons.prems(3) have "Suc h < 2 ^ 63" by simp
  from pool_step_inv [OF Cons.prems(1,2) this nu] obtain h1 w1 new1 where
    s1: "pool_step x h w = Pool h1 w1" "pool_inv h1 w1" "forwardType (tun w1) = Local"
        "events w1 = events w @ new1"
        "opened new1 = (if h = 0 \<and> h1 = 1 then 1 else 0)"
        "closes new1 = (if h = 1 \<and> h1 = 0 then 1 else 0)"
    by blast
  from s1(1) have le: "h1 \<le> Suc h" "h \<le> Suc h1" by (auto dest: pool_step_held)
  from le(1) Cons.prems(3) have b: "h1 + length xs < 2 ^ 63" by simp
  from Cons.prems(4) s1(1) have "pool_run xs h1 w1 \<noteq> Unmatched" by simp
  from Cons.IH [OF s1(3,2) b this] obtain h' w' new where
    s2: "pool_run xs h1 w1 = Pool h' w'" "pool_inv h' w'" "forwardType (tun w') = Local"
        "h' \<le> h1 + length xs" "events w' = events w1 @ new"
        "opened new + (if h1 = 0 then 0 else 1) = closes new + (if h' = 0 then 0 else 1)"
    by blast
  have cnt: "opened (new1 @ new) + (if h = 0 then 0 else 1)
             = closes (new1 @ new) + (if h' = 0 then 0 else 1)"
    using s1(5,6) s2(6) le
    by (cases "h = 0"; cases "h1 = 0"; cases "h = 1"; cases "h1 = 1")
       (simp_all add: opened_append closes_append)
  have "events w' = events w @ (new1 @ new)" using s1(4) s2(5) by simp
  with cnt s1(1) s2(1-4) le show ?case
    by (intro exI [of _ h'] exI [of _ w']) auto
qed

section \<open>Lemmas about the steps\<close>

lemma same_setup_refl [simp]: "same_setup w w"
  by (simp add: same_setup_def)

lemma notify_same: "same_setup w (notify st w)"
  by (simp add: same_setup_def notify_def)

lemma stop_same: "stop r w = (r', w') \<Longrightarrow> r' = r \<and> same_setup w w' \<and> \<not> started (tun w')"
  by (auto simp: same_setup_def stop_def notify_def split: if_splits)

lemma addConn_same: "addConn d w = (r, w') \<Longrightarrow> same_setup w w'"
  by (auto simp: same_setup_def addConn_def Let_def split: if_splits sum.splits)

lemma removeConn_same: "removeConn w = Inr w' \<Longrightarrow> same_setup w w'"
  by (auto simp: same_setup_def removeConn_def Let_def split: if_splits option.splits)

lemma forward_begin_same: "same_setup w (forward_begin c w)"
  by (simp add: same_setup_def forward_begin_def)

lemma forward_end_same: "same_setup w (forward_end c r w)"
  by (simp add: same_setup_def forward_end_def)

lemma Start_setup_same: "Start_setup env w = (res, w') \<Longrightarrow> same_setup w w'"
  by (auto simp: same_setup_def Start_setup_def Let_def stop_def notify_def initSSHConfig_def
      split: if_splits sum.splits)

lemma Start_setup_Inl: "Start_setup env w = (Inl r, w') \<Longrightarrow> r \<noteq> None"
  by (auto simp: Start_setup_def Let_def stop_def initSSHConfig_def
      split: if_splits sum.splits)

lemma Stop_effect: "Stop w = Inr w' \<Longrightarrow>
   tun w' = tun w \<and> cancelled w \<subseteq> cancelled w' \<and> next_ctx w' = next_ctx w \<and> events w' = events w"
  by (auto simp: Stop_def split: if_splits option.splits)

lemma ctx_Done_mono: "C \<subseteq> D \<Longrightarrow> ctx_Done C c \<Longrightarrow> ctx_Done D c"
  by (induction c) auto

lemma init_inv_threads: "inv_threads (init_sys w0)"
  by (simp add: inv_threads_def init_sys_def)

lemma t_CallStart: "exec (CallStart p) s = Some s' \<Longrightarrow> inv_threads s \<Longrightarrow> inv_threads s'"
  by (auto simp: exec_def inv_threads_def Start_lock_def split: if_splits)

lemma t_Setup: "exec (Setup env) s = Some s' \<Longrightarrow> inv_threads s \<Longrightarrow> inv_threads s'"
  by (auto simp: exec_def inv_threads_def split: if_splits prod.splits sum.splits
        dest!: Start_setup_same simp: same_setup_def)

lemma t_Spawn: "exec Spawn s = Some s' \<Longrightarrow> inv_threads s \<Longrightarrow> inv_threads s'"
  by (auto simp: exec_def inv_threads_def split: if_splits)

lemma t_NotifyStarted: "exec NotifyStarted s = Some s' \<Longrightarrow> inv_threads s \<Longrightarrow> inv_threads s'"
  by (auto simp: exec_def inv_threads_def notify_def split: if_splits)

lemma t_Receive: "exec Receive s = Some s' \<Longrightarrow> inv_threads s \<Longrightarrow> inv_threads s'"
  by (auto simp: exec_def inv_threads_def
        split: if_splits prod.splits listen_pc.splits dest!: stop_same simp: same_setup_def)

lemma t_ListenInit: "exec ListenInit s = Some s' \<Longrightarrow> inv_threads s \<Longrightarrow> inv_threads s'"
  by (auto simp: exec_def inv_threads_def panics_def split: if_splits option.splits)

lemma t_ListenWake: "exec ListenWake s = Some s' \<Longrightarrow> inv_threads s \<Longrightarrow> inv_threads s'"
  by (auto simp: exec_def inv_threads_def panics_def split: if_splits option.splits)

lemma t_ListenWait: "exec ListenWait s = Some s' \<Longrightarrow> inv_threads s \<Longrightarrow> inv_threads s'"
  by (auto simp: exec_def inv_threads_def panics_def split: if_splits option.splits)

lemma t_ListenSelect: "exec ListenSelect s = Some s' \<Longrightarrow> inv_threads s \<Longrightarrow> inv_threads s'"
  by (auto simp: exec_def inv_threads_def panics_def split: if_splits option.splits listen_pc.splits)

lemma t_Accept: "exec (Accept r) s = Some s' \<Longrightarrow> inv_threads s \<Longrightarrow> inv_threads s'"
  by (auto simp: exec_def inv_threads_def panics_def group_return_def Let_def
      split: if_splits option.splits sum.splits)

lemma t_AddConn: "exec (AddConn i d) s = Some s' \<Longrightarrow> inv_threads s \<Longrightarrow> inv_threads s'"
  by (auto simp: exec_def inv_threads_def set_handler_def group_return_def handler_at_def
        split: if_splits prod.splits option.splits dest!: addConn_same simp: same_setup_def)

lemma t_ForwardBegin: "exec (ForwardBegin i) s = Some s' \<Longrightarrow> inv_threads s \<Longrightarrow> inv_threads s'"
  by (auto simp: exec_def inv_threads_def set_handler_def handler_at_def forward_begin_def
        split: if_splits)

lemma t_ForwardEnd: "exec (ForwardEnd i r) s = Some s' \<Longrightarrow> inv_threads s \<Longrightarrow> inv_threads s'"
  by (auto simp: exec_def inv_threads_def set_handler_def handler_at_def forward_end_def
        split: if_splits)

lemma t_RemoveConn: "exec (RemoveConn i) s = Some s' \<Longrightarrow> inv_threads s \<Longrightarrow> inv_threads s'"
  by (auto simp: exec_def inv_threads_def set_handler_def group_return_def handler_at_def panics_def
        split: if_splits sum.splits dest!: removeConn_same simp: same_setup_def)

lemma t_CallStop: "exec CallStop s = Some s' \<Longrightarrow> inv_threads s \<Longrightarrow> inv_threads s'"
  by (auto simp: exec_def inv_threads_def panics_def
        split: if_splits sum.splits dest!: Stop_effect)

lemma t_OtherStart: "exec (OtherStart p) s = Some s' \<Longrightarrow> inv_threads s \<Longrightarrow> inv_threads s'"
  by (auto simp: exec_def inv_threads_def Start_lock_def split: if_splits)

lemma t_Cancel: "exec (Cancel k) s = Some s' \<Longrightarrow> inv_threads s \<Longrightarrow> inv_threads s'"
  by (auto simp: exec_def inv_threads_def split: if_splits)

lemma exec_inv_threads: "exec a s = Some s' \<Longrightarrow> inv_threads s \<Longrightarrow> inv_threads s'"
  by (cases a) (simp_all only: t_CallStart t_Setup t_Spawn t_NotifyStarted t_Receive t_ListenInit
      t_ListenWake t_ListenWait t_ListenSelect t_Accept t_AddConn t_ForwardBegin t_ForwardEnd
      t_RemoveConn t_CallStop t_OtherStart t_Cancel)

lemma init_inv_group: "inv_group (init_sys w0)"
  by (simp add: inv_group_def init_sys_def)

lemma tun_ctx_done_mono:
  "ctx (tun w') = ctx (tun w) \<Longrightarrow> cancelled w \<subseteq> cancelled w' \<Longrightarrow>
   tun_ctx_done w \<Longrightarrow> tun_ctx_done w'"
  by (auto simp: tun_ctx_done_def split: option.splits intro: ctx_Done_mono)

lemma tun_ctx_done_same: "same_setup w w' \<Longrightarrow> tun_ctx_done w' = tun_ctx_done w"
  by (simp add: tun_ctx_done_def same_setup_def split: option.splits)

lemma quiet_inv_group:
  assumes "quiet s s'" "inv_group s"
  shows "inv_group s'"
proof -
  have r: "result_ok r s \<Longrightarrow> result_ok r s'" for r
    using assms(1) by (auto simp: result_ok_def quiet_def)
  show ?thesis
    using assms r by (cases "listenpc s") (auto simp: inv_group_def quiet_def)
qed

lemma q_Accept: "exec (Accept r) s = Some s' \<Longrightarrow> quiet s s'"
  by (auto simp: exec_def quiet_def panics_def group_return_def Let_def
      split: if_splits option.splits sum.splits)

lemma q_AddConn: "exec (AddConn i d) s = Some s' \<Longrightarrow> quiet s s'"
  by (auto simp: exec_def quiet_def set_handler_def group_return_def
      split: if_splits prod.splits option.splits dest!: addConn_same dest: tun_ctx_done_same)

lemma q_ForwardBegin: "exec (ForwardBegin i) s = Some s' \<Longrightarrow> quiet s s'"
  using tun_ctx_done_same [OF forward_begin_same]
  by (auto simp: exec_def quiet_def set_handler_def split: if_splits)

lemma q_ForwardEnd: "exec (ForwardEnd i r) s = Some s' \<Longrightarrow> quiet s s'"
  using tun_ctx_done_same [OF forward_end_same]
  by (auto simp: exec_def quiet_def set_handler_def split: if_splits)

lemma q_RemoveConn: "exec (RemoveConn i) s = Some s' \<Longrightarrow> quiet s s'"
  by (auto simp: exec_def quiet_def set_handler_def group_return_def panics_def
      split: if_splits sum.splits dest!: removeConn_same dest: tun_ctx_done_same)

lemma Stop_ctx_done: "Stop w = Inr w' \<Longrightarrow> tun_ctx_done w \<Longrightarrow> tun_ctx_done w'"
  by (rule tun_ctx_done_mono [of w' w]) (auto dest: Stop_effect)

lemma q_CallStop: "exec CallStop s = Some s' \<Longrightarrow> quiet s s'"
  by (auto simp: exec_def quiet_def panics_def split: if_splits sum.splits
      dest: Stop_ctx_done)

lemma q_OtherStart: "exec (OtherStart p) s = Some s' \<Longrightarrow> quiet s s'"
  by (auto simp: exec_def quiet_def Start_lock_def split: if_splits)

lemma q_Cancel: "exec (Cancel k) s = Some s' \<Longrightarrow> quiet s s'"
  by (auto simp: exec_def quiet_def split: if_splits intro: tun_ctx_done_mono)

lemma g_CallStart:
  "exec (CallStart p) s = Some s' \<Longrightarrow> inv_threads s \<Longrightarrow> inv_group s \<Longrightarrow> inv_group s'"
  by (cases "listenpc s")
     (auto simp: exec_def inv_threads_def inv_group_def Start_lock_def split: if_splits)

lemma g_Setup:
  "exec (Setup env) s = Some s' \<Longrightarrow> inv_threads s \<Longrightarrow> inv_group s \<Longrightarrow> inv_group s'"
  by (cases "listenpc s")
     (auto simp: exec_def inv_threads_def inv_group_def split: if_splits prod.splits sum.splits
        dest: Start_setup_Inl)

lemma g_Spawn:
  "exec Spawn s = Some s' \<Longrightarrow> inv_threads s \<Longrightarrow> inv_group s \<Longrightarrow> inv_group s'"
  by (cases "listenpc s")
     (auto simp: exec_def inv_threads_def inv_group_def split: if_splits)

lemma q_NotifyStarted: "exec NotifyStarted s = Some s' \<Longrightarrow> quiet s s'"
  using tun_ctx_done_same [OF notify_same, of StateStarted "wld s"]
  by (auto simp: exec_def quiet_def split: if_splits)

lemma g_Receive:
  assumes "exec Receive s = Some s'" "inv_threads s" "inv_group s"
  shows "inv_group s'"
proof -
  from assms(1) obtain r w' where
    st: "listenpc s = L_Send r" "mainpc s = M_Recv"
        "s' = s\<lparr>wld := w', mainpc := M_Returned r, listenpc := L_Done\<rparr>"
        "same_setup (wld s) w'"
    by (auto simp: exec_def split: if_splits listen_pc.splits prod.splits dest!: stop_same)
  from st(1) assms(3) have "result_ok r s" by (simp add: inv_group_def)
  with st(3,4) have "result_ok r s'"
    by (auto simp: result_ok_def dest: tun_ctx_done_same)
  with assms(3) st show ?thesis
    by (simp add: inv_group_def)
qed

lemma g_ListenInit:
  "exec ListenInit s = Some s' \<Longrightarrow> inv_threads s \<Longrightarrow> inv_group s \<Longrightarrow> inv_group s'"
  by (cases "listenpc s")
     (auto simp: exec_def inv_threads_def inv_group_def panics_def
        split: if_splits option.splits)

lemma g_ListenWake:
  "exec ListenWake s = Some s' \<Longrightarrow> inv_threads s \<Longrightarrow> inv_group s \<Longrightarrow> inv_group s'"
  by (cases "listenpc s")
     (auto simp: exec_def inv_threads_def inv_group_def panics_def tun_ctx_done_def
        split: if_splits option.splits)

lemma g_ListenWait:
  "exec ListenWait s = Some s' \<Longrightarrow> inv_threads s \<Longrightarrow> inv_group s \<Longrightarrow> inv_group s'"
  by (cases "listenpc s")
     (auto simp: exec_def inv_threads_def inv_group_def
        split: if_splits option.splits)

lemma g_ListenSelect:
  "exec ListenSelect s = Some s' \<Longrightarrow> inv_threads s \<Longrightarrow> inv_group s \<Longrightarrow> inv_group s'"
  by (cases "listenpc s")
     (auto simp: exec_def inv_threads_def inv_group_def panics_def result_ok_def tun_ctx_done_def
        split: if_splits option.splits)

lemma exec_inv_group:
  assumes "exec a s = Some s'" "inv_threads s" "inv_group s"
  shows "inv_group s'"
proof (cases a)
  case (CallStart p) with assms show ?thesis by (simp add: g_CallStart)
next
  case (Setup env) with assms show ?thesis by (simp add: g_Setup)
next
  case Spawn with assms show ?thesis by (simp add: g_Spawn)
next
  case NotifyStarted with assms show ?thesis by (blast intro: quiet_inv_group q_NotifyStarted)
next
  case Receive with assms show ?thesis by (simp add: g_Receive)
next
  case ListenInit with assms show ?thesis by (simp add: g_ListenInit)
next
  case ListenWake with assms show ?thesis by (simp add: g_ListenWake)
next
  case ListenWait with assms show ?thesis by (simp add: g_ListenWait)
next
  case ListenSelect with assms show ?thesis by (simp add: g_ListenSelect)
next
  case (Accept r) with assms show ?thesis by (blast intro: quiet_inv_group q_Accept)
next
  case (AddConn i d) with assms show ?thesis by (blast intro: quiet_inv_group q_AddConn)
next
  case (ForwardBegin i) with assms show ?thesis by (blast intro: quiet_inv_group q_ForwardBegin)
next
  case (ForwardEnd i r) with assms show ?thesis by (blast intro: quiet_inv_group q_ForwardEnd)
next
  case (RemoveConn i) with assms show ?thesis by (blast intro: quiet_inv_group q_RemoveConn)
next
  case CallStop with assms show ?thesis by (blast intro: quiet_inv_group q_CallStop)
next
  case (OtherStart p) with assms show ?thesis by (blast intro: quiet_inv_group q_OtherStart)
next
  case (Cancel k) with assms show ?thesis by (blast intro: quiet_inv_group q_Cancel)
qed

lemma init_inv_errors: "inv_errors (init_sys w0)"
  by (simp add: inv_errors_def init_sys_def accept_done_def)

lemma same_errs_inv: "same_errs s s' \<Longrightarrow> inv_errors s \<Longrightarrow> inv_errors s'"
proof -
  assume a: "same_errs s s'" and i: "inv_errors s"
  from a have "fromEndpoint (tun (wld s')) = fromEndpoint (tun (wld s))"
    "forwardFromName (tun (wld s')) = forwardFromName (tun (wld s))"
    by (simp_all add: same_errs_def fromEndpoint_def forwardFromName_def)
  with a i show ?thesis
    by (simp add: same_errs_def inv_errors_def)
qed

lemma e_CallStart: "exec (CallStart p) s = Some s' \<Longrightarrow> same_errs s s'"
  by (auto simp: exec_def same_errs_def Start_lock_def split: if_splits)

lemma e_Setup: "exec (Setup env) s = Some s' \<Longrightarrow> same_errs s s'"
  by (auto simp: exec_def same_errs_def split: if_splits prod.splits sum.splits
      dest!: Start_setup_same simp: same_setup_def)

lemma e_Spawn: "exec Spawn s = Some s' \<Longrightarrow> same_errs s s'"
  by (auto simp: exec_def same_errs_def split: if_splits)

lemma e_NotifyStarted: "exec NotifyStarted s = Some s' \<Longrightarrow> same_errs s s'"
  using notify_same [of "wld s" StateStarted]
  by (auto simp: exec_def same_errs_def same_setup_def split: if_splits)

lemma e_Receive: "exec Receive s = Some s' \<Longrightarrow> same_errs s s'"
  by (auto simp: exec_def same_errs_def split: if_splits listen_pc.splits prod.splits
      dest!: stop_same simp: same_setup_def)

lemma e_ListenInit: "exec ListenInit s = Some s' \<Longrightarrow> inv_threads s \<Longrightarrow> inv_errors s \<Longrightarrow> inv_errors s'"
  by (auto simp: exec_def inv_errors_def inv_threads_def panics_def accept_done_def
      split: if_splits option.splits)

lemma e_ListenWake: "exec ListenWake s = Some s' \<Longrightarrow> same_errs s s'"
  by (auto simp: exec_def same_errs_def panics_def split: if_splits option.splits)

lemma e_ListenWait: "exec ListenWait s = Some s' \<Longrightarrow> same_errs s s'"
  by (auto simp: exec_def same_errs_def split: if_splits)

lemma e_ListenSelect: "exec ListenSelect s = Some s' \<Longrightarrow> same_errs s s'"
  by (auto simp: exec_def same_errs_def panics_def split: if_splits option.splits listen_pc.splits)

lemma e_CallStop: "exec CallStop s = Some s' \<Longrightarrow> same_errs s s'"
  by (auto simp: exec_def same_errs_def panics_def split: if_splits sum.splits dest!: Stop_effect)

lemma e_OtherStart: "exec (OtherStart p) s = Some s' \<Longrightarrow> same_errs s s'"
  by (auto simp: exec_def same_errs_def Start_lock_def split: if_splits)

lemma e_Cancel: "exec (Cancel k) s = Some s' \<Longrightarrow> same_errs s s'"
  by (auto simp: exec_def same_errs_def split: if_splits)

lemma panics_same_errs: "same_errs s (panics p s)"
  by (simp add: same_errs_def panics_def)

text \<open>A handler moves to a program counter that is not a return with an error.\<close>

lemma handler_moves:
  assumes "inv_errors s" "i < length (handlers s)" "\<forall>e. snd (handlers s ! i) \<noteq> H_Done (Some e)"
      and "\<forall>e. pc \<noteq> H_Done (Some e)" "same_setup (wld s) w'"
  shows "inv_errors (set_handler i pc (s\<lparr>wld := w'\<rparr>))"
proof -
  have n: "snd ((handlers s)[i := (fst (handlers s ! i), pc)] ! j) = H_Done (Some e)
           \<longleftrightarrow> snd (handlers s ! j) = H_Done (Some e)" if "j < length (handlers s)" for j e
    using assms(2,3,4) that by (cases "i = j") auto
  from assms(5) have f: "fromEndpoint (tun w') = fromEndpoint (tun (wld s))"
    "forwardFromName (tun w') = forwardFromName (tun (wld s))"
    "server (tun w') = server (tun (wld s))"
    by (simp_all add: same_setup_def fromEndpoint_def forwardFromName_def)
  show ?thesis
    using assms(1) by (simp add: inv_errors_def set_handler_def n f cong: conj_cong)
qed

lemma e_ForwardBegin:
  "exec (ForwardBegin i) s = Some s' \<Longrightarrow> inv_errors s \<Longrightarrow> inv_errors s'"
  using handler_moves [of s i H_Forwarding, OF _ _ _ _ forward_begin_same]
  by (auto simp: exec_def handler_at_def split: if_splits)

lemma e_ForwardEnd:
  "exec (ForwardEnd i r) s = Some s' \<Longrightarrow> inv_errors s \<Longrightarrow> inv_errors s'"
  using handler_moves [of s i H_RemoveConn, OF _ _ _ _ forward_end_same]
  by (auto simp: exec_def handler_at_def split: if_splits)

lemma e_RemoveConn:
  "exec (RemoveConn i) s = Some s' \<Longrightarrow> inv_errors s \<Longrightarrow> inv_errors s'"
  using handler_moves [of s i "H_Done None"] same_errs_inv [OF panics_same_errs]
  by (auto simp: exec_def handler_at_def group_return_def split: if_splits sum.splits
      dest!: removeConn_same)

lemma addConn_error: "addConn d w = (Some e, w') \<Longrightarrow> \<exists>cs. e = SSHDialFailed (server (tun w)) cs"
  by (auto simp: addConn_def Let_def split: if_splits sum.splits)

text \<open>A goroutine of the group returns an error.\<close>

lemma handler_fails:
  assumes "inv_errors s" "i < length (handlers s)" "\<forall>e. snd (handlers s ! i) \<noteq> H_Done (Some e)"
      and "same_setup (wld s) w'"
  shows "inv_errors (group_return (Some (SSHDialFailed (server (tun (wld s))) cs))
           (set_handler i (H_Done (Some (SSHDialFailed (server (tun (wld s))) cs)))
              (s\<lparr>wld := w'\<rparr>)))"
    (is "inv_errors ?s'")
proof -
  let ?e = "SSHDialFailed (server (tun (wld s))) cs"
  let ?hs = "(handlers s)[i := (fst (handlers s ! i), H_Done (Some ?e))]"
  have hs: "handlers ?s' = ?hs" "length ?hs = length (handlers s)"
    by (simp_all add: group_return_def set_handler_def)
  have n: "snd (?hs ! j) = H_Done (Some e)
           \<longleftrightarrow> (if j = i then e = ?e else snd (handlers s ! j) = H_Done (Some e))"
    if "j < length (handlers s)" for j e
    using assms(2) that by (cases "i = j") auto
  from assms(4) have f: "fromEndpoint (tun w') = fromEndpoint (tun (wld s))"
    "forwardFromName (tun w') = forwardFromName (tun (wld s))"
    "server (tun w') = server (tun (wld s))"
    by (simp_all add: same_setup_def fromEndpoint_def forwardFromName_def)
  have w: "wld ?s' = w'" "acceptpc ?s' = acceptpc s" "gcancelled ?s'"
    "gerr ?s' = (if gerr s = None then Some ?e else gerr s)"
    by (simp_all add: group_return_def set_handler_def)
  have c1: "\<forall>e. acceptpc ?s' = A_Done e \<longrightarrow>
          (\<exists>cs. e = AcceptFailed (forwardFromName (tun (wld ?s'))) (fromEndpoint (tun (wld ?s'))) cs)"
    using assms(1) unfolding w f by (simp add: inv_errors_def)
  have c2: "\<forall>j e. j < length (handlers ?s') \<and> snd (handlers ?s' ! j) = H_Done (Some e) \<longrightarrow>
            (\<exists>cs. e = SSHDialFailed (server (tun (wld ?s'))) cs)"
  proof (intro allI impI)
    fix j e assume j: "j < length (handlers ?s') \<and> snd (handlers ?s' ! j) = H_Done (Some e)"
    then have jl: "j < length (handlers s)" unfolding hs by simp
    from j have c: "if j = i then e = ?e else snd (handlers s ! j) = H_Done (Some e)"
      unfolding hs using n [OF jl, of e] by simp
    show "\<exists>cs. e = SSHDialFailed (server (tun (wld ?s'))) cs"
    proof (cases "j = i")
      case True
      with c show ?thesis unfolding w f by simp
    next
      case False
      with c jl assms(1) show ?thesis unfolding w f by (simp add: inv_errors_def)
    qed
  qed
  have c3: "\<forall>e. gerr ?s' = Some e \<longrightarrow>
            acceptpc ?s' = A_Done e
            \<or> (\<exists>j. j < length (handlers ?s') \<and> snd (handlers ?s' ! j) = H_Done (Some e))"
  proof (intro allI impI)
    fix e assume g: "gerr ?s' = Some e"
    show "acceptpc ?s' = A_Done e
            \<or> (\<exists>j. j < length (handlers ?s') \<and> snd (handlers ?s' ! j) = H_Done (Some e))"
    proof (cases "gerr s = None")
      case True
      with g have "e = ?e" unfolding w by simp
      with assms(2) show ?thesis unfolding hs by (auto simp: n)
    next
      case False
      with g have "gerr s = Some e" unfolding w by simp
      with assms(1) have "acceptpc s = A_Done e
            \<or> (\<exists>j. j < length (handlers s) \<and> snd (handlers s ! j) = H_Done (Some e))"
        by (simp add: inv_errors_def)
      then show ?thesis
      proof
        assume "acceptpc s = A_Done e" then show ?thesis unfolding w by simp
      next
        assume "\<exists>j. j < length (handlers s) \<and> snd (handlers s ! j) = H_Done (Some e)"
        then obtain j where j: "j < length (handlers s)" "snd (handlers s ! j) = H_Done (Some e)"
          by blast
        with assms(3) have "j \<noteq> i" by auto
        with j have "j < length ?hs \<and> snd (?hs ! j) = H_Done (Some e)" by (simp add: n)
        then show ?thesis unfolding hs by blast
      qed
    qed
  qed
  have c4: "gerr ?s' \<noteq> None \<and> gcancelled ?s'" using w(3,4) by simp
  from c1 c2 c3 c4 show ?thesis unfolding inv_errors_def by blast
qed

lemma e_AddConn:
  assumes "exec (AddConn i d) s = Some s'" "inv_errors s"
  shows "inv_errors s'"
proof -
  obtain r w' where a: "addConn d (wld s) = (r, w')" by (cases "addConn d (wld s)")
  then have ss: "same_setup (wld s) w'" by (rule addConn_same)
  from assms(1) have h: "i < length (handlers s)" "snd (handlers s ! i) = H_AddConn"
    by (auto simp: exec_def handler_at_def split: if_splits)
  then have ne: "\<forall>e. snd (handlers s ! i) \<noteq> H_Done (Some e)" by simp
  show ?thesis
  proof (cases r)
    case None
    with assms(1) a h have "s' = set_handler i H_Forward (s\<lparr>wld := w'\<rparr>)"
      by (auto simp: exec_def handler_at_def split: if_splits)
    with handler_moves [OF assms(2) h(1) ne _ ss, of H_Forward] show ?thesis by simp
  next
    case (Some e)
    with a obtain cs where e: "e = SSHDialFailed (server (tun (wld s))) cs"
      by (auto dest: addConn_error)
    from Some assms(1) a h have "s' = group_return (Some e) (set_handler i (H_Done (Some e)) (s\<lparr>wld := w'\<rparr>))"
      by (auto simp: exec_def handler_at_def split: if_splits)
    with handler_fails [OF assms(2) h(1) ne ss, of cs] e show ?thesis by simp
  qed
qed

lemma append_handler_done:
  "(j < length (hs @ [(c, H_AddConn)]) \<and> snd ((hs @ [(c, H_AddConn)]) ! j) = H_Done r)
   \<longleftrightarrow> (j < length hs \<and> snd (hs ! j) = H_Done r)"
  by (cases "j < length hs") (auto simp: nth_append)

lemma e_Accept_conn:
  assumes "inv_errors s" "acceptpc s = A_Running"
  shows "inv_errors (s\<lparr>handlers := handlers s @ [(c, H_AddConn)]\<rparr>)"
proof -
  let ?s' = "s\<lparr>handlers := handlers s @ [(c, H_AddConn)]\<rparr>"
  have c2: "\<forall>j e. j < length (handlers ?s') \<and> snd (handlers ?s' ! j) = H_Done (Some e) \<longrightarrow>
            (\<exists>cs. e = SSHDialFailed (server (tun (wld ?s'))) cs)"
  proof (intro allI impI)
    fix j e assume "j < length (handlers ?s') \<and> snd (handlers ?s' ! j) = H_Done (Some e)"
    then have "j < length (handlers s) \<and> snd (handlers s ! j) = H_Done (Some e)"
      using append_handler_done [of j "handlers s" c "Some e"] by simp
    with assms(1) show "\<exists>cs. e = SSHDialFailed (server (tun (wld ?s'))) cs"
      by (simp add: inv_errors_def)
  qed
  have c3: "\<forall>e. gerr ?s' = Some e \<longrightarrow>
            acceptpc ?s' = A_Done e
            \<or> (\<exists>j. j < length (handlers ?s') \<and> snd (handlers ?s' ! j) = H_Done (Some e))"
  proof (intro allI impI)
    fix e assume "gerr ?s' = Some e"
    with assms obtain j where "j < length (handlers s) \<and> snd (handlers s ! j) = H_Done (Some e)"
      by (auto simp: inv_errors_def)
    then have "j < length (handlers ?s') \<and> snd (handlers ?s' ! j) = H_Done (Some e)"
      using append_handler_done [of j "handlers s" c "Some e"] by simp
    then show "acceptpc ?s' = A_Done e
            \<or> (\<exists>j. j < length (handlers ?s') \<and> snd (handlers ?s' ! j) = H_Done (Some e))"
      by blast
  qed
  have c4: "accept_done (acceptpc ?s')
            \<or> (\<exists>j e. j < length (handlers ?s') \<and> snd (handlers ?s' ! j) = H_Done (Some e))
          \<longrightarrow> gerr ?s' \<noteq> None \<and> gcancelled ?s'"
  proof
    assume "accept_done (acceptpc ?s')
            \<or> (\<exists>j e. j < length (handlers ?s') \<and> snd (handlers ?s' ! j) = H_Done (Some e))"
    with assms(2) obtain j e where
      "j < length (handlers ?s') \<and> snd (handlers ?s' ! j) = H_Done (Some e)"
      by (auto simp: accept_done_def)
    then have "j < length (handlers s) \<and> snd (handlers s ! j) = H_Done (Some e)"
      using append_handler_done [of j "handlers s" c "Some e"] by simp
    with assms(1) show "gerr ?s' \<noteq> None \<and> gcancelled ?s'"
      unfolding inv_errors_def by simp blast
  qed
  have c1: "\<forall>e. acceptpc ?s' = A_Done e \<longrightarrow>
          (\<exists>cs. e = AcceptFailed (forwardFromName (tun (wld ?s'))) (fromEndpoint (tun (wld ?s'))) cs)"
    using assms(2) by simp
  from c1 c2 c3 c4 show ?thesis unfolding inv_errors_def by blast
qed

lemma e_Accept_error:
  assumes "inv_errors s" "acceptpc s = A_Running"
  shows "inv_errors (group_return
           (Some (AcceptFailed (forwardFromName (tun (wld s))) (fromEndpoint (tun (wld s))) err))
           (s\<lparr>acceptpc :=
                A_Done (AcceptFailed (forwardFromName (tun (wld s))) (fromEndpoint (tun (wld s))) err)\<rparr>))"
    (is "inv_errors ?s'")
proof -
  let ?e = "AcceptFailed (forwardFromName (tun (wld s))) (fromEndpoint (tun (wld s))) err"
  have w: "wld ?s' = wld s" "acceptpc ?s' = A_Done ?e" "gcancelled ?s'" "handlers ?s' = handlers s"
    "gerr ?s' = (if gerr s = None then Some ?e else gerr s)"
    by (simp_all add: group_return_def)
  have c1: "\<forall>e. acceptpc ?s' = A_Done e \<longrightarrow>
          (\<exists>cs. e = AcceptFailed (forwardFromName (tun (wld ?s'))) (fromEndpoint (tun (wld ?s'))) cs)"
    unfolding w by simp
  have c2: "\<forall>j e. j < length (handlers ?s') \<and> snd (handlers ?s' ! j) = H_Done (Some e) \<longrightarrow>
            (\<exists>cs. e = SSHDialFailed (server (tun (wld ?s'))) cs)"
    using assms(1) unfolding w(1,4) by (simp add: inv_errors_def)
  have c3: "\<forall>e. gerr ?s' = Some e \<longrightarrow>
            acceptpc ?s' = A_Done e
            \<or> (\<exists>j. j < length (handlers ?s') \<and> snd (handlers ?s' ! j) = H_Done (Some e))"
  proof (intro allI impI)
    fix e assume g: "gerr ?s' = Some e"
    show "acceptpc ?s' = A_Done e
            \<or> (\<exists>j. j < length (handlers ?s') \<and> snd (handlers ?s' ! j) = H_Done (Some e))"
    proof (cases "gerr s = None")
      case True
      with g show ?thesis unfolding w by simp
    next
      case False
      with g have "gerr s = Some e" unfolding w by simp
      with assms show ?thesis unfolding w by (simp add: inv_errors_def)
    qed
  qed
  have c4: "gerr ?s' \<noteq> None \<and> gcancelled ?s'" using w(3,5) by simp
  from c1 c2 c3 c4 show ?thesis unfolding inv_errors_def by blast
qed

lemma e_Accept:
  assumes "exec (Accept res) s = Some s'" "inv_errors s"
  shows "inv_errors s'"
proof -
  from assms(1) have run: "acceptpc s = A_Running"
    by (auto simp: exec_def split: if_splits)
  from assms(1) run have
    "s' = panics NilDereference s
     \<or> (\<exists>err. s' = group_return
           (Some (AcceptFailed (forwardFromName (tun (wld s))) (fromEndpoint (tun (wld s))) err))
           (s\<lparr>acceptpc :=
                A_Done (AcceptFailed (forwardFromName (tun (wld s))) (fromEndpoint (tun (wld s))) err)\<rparr>))
     \<or> (\<exists>c. s' = s\<lparr>handlers := handlers s @ [(c, H_AddConn)]\<rparr>)"
    by (auto simp: exec_def Let_def split: if_splits option.splits sum.splits)
  with assms(2) run show ?thesis
    using same_errs_inv [OF panics_same_errs] e_Accept_error e_Accept_conn by blast
qed

lemma exec_inv_errors:
  assumes "exec a s = Some s'" "inv_threads s" "inv_errors s"
  shows "inv_errors s'"
proof (cases a)
  case (CallStart p) with assms show ?thesis by (blast intro: same_errs_inv e_CallStart)
next
  case (Setup env) with assms show ?thesis by (blast intro: same_errs_inv e_Setup)
next
  case Spawn with assms show ?thesis by (blast intro: same_errs_inv e_Spawn)
next
  case NotifyStarted with assms show ?thesis by (blast intro: same_errs_inv e_NotifyStarted)
next
  case Receive with assms show ?thesis by (blast intro: same_errs_inv e_Receive)
next
  case ListenInit with assms show ?thesis by (simp add: e_ListenInit)
next
  case ListenWake with assms show ?thesis by (blast intro: same_errs_inv e_ListenWake)
next
  case ListenWait with assms show ?thesis by (blast intro: same_errs_inv e_ListenWait)
next
  case ListenSelect with assms show ?thesis by (blast intro: same_errs_inv e_ListenSelect)
next
  case (Accept r) with assms show ?thesis by (simp add: e_Accept)
next
  case (AddConn i d) with assms show ?thesis by (simp add: e_AddConn)
next
  case (ForwardBegin i) with assms show ?thesis by (simp add: e_ForwardBegin)
next
  case (ForwardEnd i r) with assms show ?thesis by (simp add: e_ForwardEnd)
next
  case (RemoveConn i) with assms show ?thesis by (simp add: e_RemoveConn)
next
  case CallStop with assms show ?thesis by (blast intro: same_errs_inv e_CallStop)
next
  case (OtherStart p) with assms show ?thesis by (blast intro: same_errs_inv e_OtherStart)
next
  case (Cancel k) with assms show ?thesis by (blast intro: same_errs_inv e_Cancel)
qed

lemma notified_before_append:
  "notified_before st (xs @ ys) =
     (notified_before st xs \<and> (ConnStateCall st \<in> set xs \<or> notified_before st ys))"
  by (induction xs) auto

lemma notified_before_none: "\<not> list_ex is_tunneled ys \<Longrightarrow> notified_before st ys"
  by (induction ys) auto

lemma init_inv_order: "inv_order w0 (init_sys w0)"
  by (simp add: inv_order_def init_sys_def setup_done_def)

lemma step_order_inv:
  assumes "step_order s s'" "inv_threads s" "inv_order w0 s"
  shows "inv_order w0 s'"
proof -
  from assms(3) obtain new where
    n: "connState (tun (wld s)) = connState (tun w0)" "events (wld s) = events w0 @ new"
       "connState (tun w0) \<noteq> None \<longrightarrow>
          notified_before StateStarting new
          \<and> (setup_done s \<longrightarrow> ConnStateCall StateStarting \<in> set new)"
    by (auto simp: inv_order_def)
  from assms(1) obtain ev where
    e: "connState (tun (wld s')) = connState (tun (wld s))" "events (wld s') = events (wld s) @ ev"
       "list_ex is_tunneled ev \<longrightarrow> handlers s \<noteq> []"
       "setup_done s' \<and> \<not> setup_done s \<and> connState (tun (wld s)) \<noteq> None \<longrightarrow>
          ConnStateCall StateStarting \<in> set ev"
    by (auto simp: step_order_def)
  have h: "handlers s \<noteq> [] \<Longrightarrow> setup_done s"
    using assms(2) by (auto simp: inv_threads_def setup_done_def)
  have "connState (tun w0) \<noteq> None \<longrightarrow>
          notified_before StateStarting (new @ ev)
          \<and> (setup_done s' \<longrightarrow> ConnStateCall StateStarting \<in> set (new @ ev))"
  proof
    assume c: "connState (tun w0) \<noteq> None"
    with n have nb: "notified_before StateStarting new"
      and sd: "setup_done s \<Longrightarrow> ConnStateCall StateStarting \<in> set new" by auto
    have 1: "notified_before StateStarting (new @ ev)"
    proof (cases "list_ex is_tunneled ev")
      case True
      with e(3) h sd have "ConnStateCall StateStarting \<in> set new" by blast
      with nb show ?thesis by (simp add: notified_before_append)
    next
      case False
      with nb show ?thesis by (simp add: notified_before_append notified_before_none)
    qed
    have 2: "ConnStateCall StateStarting \<in> set (new @ ev)" if "setup_done s'"
    proof (cases "setup_done s")
      case True
      with sd show ?thesis by simp
    next
      case False
      with that e(4) c n(1) show ?thesis by simp
    qed
    from 1 2 show "notified_before StateStarting (new @ ev)
          \<and> (setup_done s' \<longrightarrow> ConnStateCall StateStarting \<in> set (new @ ev))" by blast
  qed
  moreover have "events (wld s') = events w0 @ (new @ ev)" using n(2) e(2) by simp
  moreover have "connState (tun (wld s')) = connState (tun w0)" using n(1) e(1) by simp
  ultimately show ?thesis unfolding inv_order_def by blast
qed

lemma plain_refl [simp]: "plain w w"
  by (simp add: plain_def)

lemma notify_plain: "plain w (notify st w)"
  by (simp add: plain_def notify_def)

lemma stop_plain: "stop r w = (r', w') \<Longrightarrow> plain w w'"
  by (auto simp: plain_def stop_def notify_def)

lemma addConn_plain: "addConn d w = (r, w') \<Longrightarrow> plain w w'"
  by (auto simp: plain_def addConn_def Let_def split: if_splits sum.splits)

lemma removeConn_plain: "removeConn w = Inr w' \<Longrightarrow> plain w w'"
  by (auto simp: plain_def removeConn_def Let_def split: if_splits option.splits)

lemma Start_setup_plain: "Start_setup env w = (res, w') \<Longrightarrow> plain w w'"
  by (auto simp: plain_def Start_setup_def Let_def stop_def notify_def initSSHConfig_def
      split: if_splits sum.splits)

lemma Start_setup_starting:
  "Start_setup env w = (Inr l, w') \<Longrightarrow> connState (tun w) \<noteq> None \<Longrightarrow>
   \<exists>ev. events w' = events w @ ev \<and> \<not> list_ex is_tunneled ev \<and> ConnStateCall StateStarting \<in> set ev"
  by (auto simp: Start_setup_def Let_def stop_def notify_def initSSHConfig_def
      split: if_splits sum.splits)

lemma plain_step:
  assumes "plain (wld s) (wld s')" "connState (tun (wld s')) = connState (tun (wld s))"
      and "setup_done s' \<longrightarrow> setup_done s"
  shows "step_order s s'"
  using assms by (auto simp: step_order_def plain_def)

lemma o_CallStart: "exec (CallStart p) s = Some s' \<Longrightarrow> step_order s s'"
  by (rule plain_step) (auto simp: exec_def Start_lock_def setup_done_def plain_def split: if_splits)

lemma o_Setup:
  assumes "exec (Setup env) s = Some s'"
  shows "step_order s s'"
proof -
  obtain res w' where r: "Start_setup env (wld s) = (res, w')" by (cases "Start_setup env (wld s)")
  from r have cs: "connState (tun w') = connState (tun (wld s))"
    by (auto dest: Start_setup_same simp: same_setup_def)
  show ?thesis
  proof (cases res)
    case (Inl e)
    with assms r have "s' = s\<lparr>wld := w', mainpc := M_Returned e\<rparr>"
      by (auto simp: exec_def split: if_splits)
    with cs Start_setup_plain [OF r] show ?thesis
      by (intro plain_step) (auto simp: setup_done_def)
  next
    case (Inr l)
    with assms r have s': "s' = s\<lparr>wld := w', mainpc := M_Spawn, lis := l\<rparr>"
      by (auto simp: exec_def split: if_splits)
    show ?thesis
    proof (cases "connState (tun (wld s)) = None")
      case True
      with cs s' Start_setup_plain [OF r] show ?thesis
        by (auto simp: step_order_def plain_def)
    next
      case False
      with r Inr obtain ev where "events w' = events (wld s) @ ev" "\<not> list_ex is_tunneled ev"
        "ConnStateCall StateStarting \<in> set ev"
        by (auto dest: Start_setup_starting)
      with cs s' show ?thesis by (auto simp: step_order_def)
    qed
  qed
qed

lemma o_Spawn: "exec Spawn s = Some s' \<Longrightarrow> step_order s s'"
  by (rule plain_step) (auto simp: exec_def setup_done_def split: if_splits)

lemma o_NotifyStarted: "exec NotifyStarted s = Some s' \<Longrightarrow> step_order s s'"
  using notify_plain [of "wld s" StateStarted] notify_same [of "wld s" StateStarted]
  by (intro plain_step) (auto simp: exec_def setup_done_def same_setup_def split: if_splits)

lemma o_Receive: "exec Receive s = Some s' \<Longrightarrow> step_order s s'"
  by (rule plain_step)
     (auto simp: exec_def setup_done_def same_setup_def split: if_splits listen_pc.splits prod.splits
       dest: stop_plain stop_same)

lemma o_ListenInit: "exec ListenInit s = Some s' \<Longrightarrow> step_order s s'"
  by (rule plain_step) (auto simp: exec_def setup_done_def panics_def split: if_splits option.splits)

lemma o_ListenWake: "exec ListenWake s = Some s' \<Longrightarrow> step_order s s'"
  by (rule plain_step) (auto simp: exec_def setup_done_def panics_def split: if_splits option.splits)

lemma o_ListenWait: "exec ListenWait s = Some s' \<Longrightarrow> step_order s s'"
  by (rule plain_step) (auto simp: exec_def setup_done_def split: if_splits)

lemma o_ListenSelect: "exec ListenSelect s = Some s' \<Longrightarrow> step_order s s'"
  by (rule plain_step)
     (auto simp: exec_def setup_done_def panics_def split: if_splits option.splits listen_pc.splits)

lemma o_Accept: "exec (Accept r) s = Some s' \<Longrightarrow> step_order s s'"
  by (rule plain_step)
     (auto simp: exec_def setup_done_def panics_def group_return_def Let_def
       split: if_splits option.splits sum.splits)

lemma o_AddConn: "exec (AddConn i d) s = Some s' \<Longrightarrow> step_order s s'"
  by (rule plain_step)
     (auto simp: exec_def setup_done_def set_handler_def group_return_def same_setup_def
       split: if_splits prod.splits option.splits dest: addConn_plain addConn_same)

lemma o_RemoveConn: "exec (RemoveConn i) s = Some s' \<Longrightarrow> step_order s s'"
  by (rule plain_step)
     (auto simp: exec_def setup_done_def set_handler_def group_return_def panics_def same_setup_def
       split: if_splits sum.splits dest: removeConn_plain removeConn_same)

lemma o_ForwardBegin: "exec (ForwardBegin i) s = Some s' \<Longrightarrow> step_order s s'"
  by (auto simp: exec_def step_order_def setup_done_def set_handler_def handler_at_def
      forward_begin_def split: if_splits)

lemma o_ForwardEnd: "exec (ForwardEnd i r) s = Some s' \<Longrightarrow> step_order s s'"
  by (auto simp: exec_def step_order_def setup_done_def set_handler_def handler_at_def
      forward_end_def split: if_splits)

lemma o_CallStop: "exec CallStop s = Some s' \<Longrightarrow> step_order s s'"
  by (rule plain_step)
     (auto simp: exec_def setup_done_def panics_def plain_def split: if_splits sum.splits
       dest: Stop_effect)

lemma o_OtherStart: "exec (OtherStart p) s = Some s' \<Longrightarrow> step_order s s'"
  by (rule plain_step) (auto simp: exec_def Start_lock_def setup_done_def plain_def split: if_splits)

lemma o_Cancel: "exec (Cancel k) s = Some s' \<Longrightarrow> step_order s s'"
  by (rule plain_step) (auto simp: exec_def setup_done_def plain_def split: if_splits)

lemma exec_step_order: "exec a s = Some s' \<Longrightarrow> step_order s s'"
  by (cases a)
     (simp_all only: o_CallStart o_Setup o_Spawn o_NotifyStarted o_Receive o_ListenInit
       o_ListenWake o_ListenWait o_ListenSelect o_Accept o_AddConn o_ForwardBegin o_ForwardEnd
       o_RemoveConn o_CallStop o_OtherStart o_Cancel)

lemma init_run_inv: "run_inv w0 (init_sys w0)"
  by (simp add: run_inv_def init_inv_threads init_inv_group init_inv_errors init_inv_order)

lemma exec_run_inv: "exec a s = Some s' \<Longrightarrow> run_inv w0 s \<Longrightarrow> run_inv w0 s'"
  unfolding run_inv_def
  by (blast intro: exec_inv_threads exec_inv_group exec_inv_errors step_order_inv exec_step_order)

lemma run_run_inv: "run as s = Some s' \<Longrightarrow> run_inv w0 s \<Longrightarrow> run_inv w0 s'"
proof (induction as arbitrary: s)
  case Nil
  then show ?case by simp
next
  case (Cons a as)
  then show ?case by (auto split: option.splits dest: exec_run_inv)
qed

lemma reachable_inv: "run as (init_sys w0) = Some s \<Longrightarrow> run_inv w0 s"
  by (rule run_run_inv [OF _ init_run_inv])

lemma keeps_cancel_set: "keeps_cancel w w' \<Longrightarrow> cancel_set w \<Longrightarrow> cancel_set w'"
  by (auto simp: keeps_cancel_def cancel_set_def)

lemma keeps_refl [simp]: "keeps_cancel w w"
  by (simp add: keeps_cancel_def)

lemma notify_keeps: "keeps_cancel w (notify st w)"
  by (simp add: keeps_cancel_def notify_def)

lemma stop_keeps: "stop r w = (r', w') \<Longrightarrow> keeps_cancel w w'"
  by (auto simp: keeps_cancel_def stop_def notify_def split: if_splits)

lemma addConn_keeps: "addConn d w = (r, w') \<Longrightarrow> keeps_cancel w w'"
  by (auto simp: keeps_cancel_def addConn_def Let_def split: if_splits sum.splits)

lemma removeConn_keeps: "removeConn w = Inr w' \<Longrightarrow> keeps_cancel w w'"
  by (auto simp: keeps_cancel_def removeConn_def Let_def split: if_splits option.splits)

lemma forward_begin_keeps: "keeps_cancel w (forward_begin c w)"
  by (simp add: keeps_cancel_def forward_begin_def)

lemma forward_end_keeps: "keeps_cancel w (forward_end c r w)"
  by (simp add: keeps_cancel_def forward_end_def)

lemma Start_setup_keeps: "Start_setup env w = (res, w') \<Longrightarrow> keeps_cancel w w'"
  by (auto simp: keeps_cancel_def Start_setup_def Let_def stop_def notify_def initSSHConfig_def
      split: if_splits sum.splits)

lemma Stop_keeps: "Stop w = Inr w' \<Longrightarrow> keeps_cancel w w'"
  by (auto simp: keeps_cancel_def dest: Stop_effect)

lemma Start_lock_cancel_set: "Start_lock p w = (r, w') \<Longrightarrow> cancel_set w \<Longrightarrow> cancel_set w'"
  by (auto simp: Start_lock_def cancel_set_def split: if_splits)

lemma Stop_no_panic: "cancel_set w \<Longrightarrow> \<exists>w'. Stop w = Inr w'"
  by (auto simp: Stop_def cancel_set_def)

lemma exec_cancel_set:
  assumes "exec a s = Some s'" "cancel_set (wld s)"
  shows "cancel_set (wld s')"
proof (cases a)
  case (CallStart p)
  with assms show ?thesis
    by (auto simp: exec_def split: if_splits prod.splits option.splits dest: Start_lock_cancel_set)
next
  case (Setup env)
  with assms show ?thesis
    by (auto simp: exec_def split: if_splits prod.splits sum.splits
        dest!: Start_setup_keeps dest: keeps_cancel_set)
next
  case Spawn with assms show ?thesis by (auto simp: exec_def split: if_splits)
next
  case NotifyStarted
  with assms keeps_cancel_set [OF notify_keeps] show ?thesis
    by (auto simp: exec_def split: if_splits)
next
  case Receive
  with assms show ?thesis
    by (auto simp: exec_def split: if_splits listen_pc.splits prod.splits
        dest!: stop_keeps dest: keeps_cancel_set)
next
  case ListenInit with assms show ?thesis
    by (auto simp: exec_def panics_def split: if_splits option.splits)
next
  case ListenWake with assms show ?thesis
    by (auto simp: exec_def panics_def split: if_splits option.splits)
next
  case ListenWait with assms show ?thesis by (auto simp: exec_def split: if_splits)
next
  case ListenSelect with assms show ?thesis
    by (auto simp: exec_def panics_def split: if_splits option.splits listen_pc.splits)
next
  case (Accept r) with assms show ?thesis
    by (auto simp: exec_def panics_def group_return_def Let_def
        split: if_splits option.splits sum.splits)
next
  case (AddConn i d)
  with assms show ?thesis
    by (auto simp: exec_def set_handler_def group_return_def
        split: if_splits prod.splits option.splits dest!: addConn_keeps dest: keeps_cancel_set)
next
  case (ForwardBegin i)
  with assms keeps_cancel_set [OF forward_begin_keeps] show ?thesis
    by (auto simp: exec_def set_handler_def split: if_splits)
next
  case (ForwardEnd i r)
  with assms keeps_cancel_set [OF forward_end_keeps] show ?thesis
    by (auto simp: exec_def set_handler_def split: if_splits)
next
  case (RemoveConn i)
  with assms show ?thesis
    by (auto simp: exec_def set_handler_def group_return_def panics_def
        split: if_splits sum.splits dest!: removeConn_keeps dest: keeps_cancel_set)
next
  case CallStop
  with assms show ?thesis
    by (auto simp: exec_def panics_def split: if_splits sum.splits
        dest!: Stop_keeps dest: keeps_cancel_set)
next
  case (OtherStart p)
  with assms show ?thesis
    by (auto simp: exec_def split: if_splits prod.splits option.splits dest: Start_lock_cancel_set)
next
  case (Cancel k)
  with assms show ?thesis by (auto simp: exec_def cancel_set_def split: if_splits)
qed

lemma run_cancel_set: "run as s = Some s' \<Longrightarrow> cancel_set (wld s) \<Longrightarrow> cancel_set (wld s')"
proof (induction as arbitrary: s)
  case Nil
  then show ?case by simp
next
  case (Cons a as)
  then show ?case by (auto split: option.splits dest: exec_cancel_set)
qed

lemma run_never_crashes_in_Stop:
  assumes "run as (init_sys w0) = Some s" "cancel_set w0"
  shows "\<exists>w'. Stop (wld s) = Inr w'"
  using run_cancel_set [OF assms(1)] assms(2) by (auto simp: init_sys_def intro: Stop_no_panic)

text \<open>Runs in pieces, and what a step keeps of the group's error.\<close>

lemma run_append:
  "run (xs @ ys) s = (case run xs s of None \<Rightarrow> None | Some s' \<Rightarrow> run ys s')"
  by (induction xs arbitrary: s) (auto split: option.splits)

lemma exec_ctx_seen_same:
  assumes "exec a s = Some s'" "a \<noteq> ListenSelect"
  shows "ctx_seen s' = ctx_seen s"
proof (cases a)
  case (CallStart p) with assms show ?thesis
    by (auto simp: exec_def split: if_splits prod.splits option.splits)
next
  case (Setup env) with assms show ?thesis
    by (auto simp: exec_def split: if_splits prod.splits sum.splits)
next
  case Spawn with assms show ?thesis by (auto simp: exec_def split: if_splits)
next
  case NotifyStarted with assms show ?thesis by (auto simp: exec_def split: if_splits)
next
  case Receive with assms show ?thesis
    by (auto simp: exec_def split: if_splits listen_pc.splits prod.splits)
next
  case ListenInit with assms show ?thesis
    by (auto simp: exec_def panics_def split: if_splits option.splits)
next
  case ListenWake with assms show ?thesis
    by (auto simp: exec_def panics_def split: if_splits option.splits)
next
  case ListenWait with assms show ?thesis by (auto simp: exec_def split: if_splits)
next
  case ListenSelect with assms show ?thesis by simp
next
  case (Accept r) with assms show ?thesis
    by (auto simp: exec_def panics_def group_return_def Let_def
        split: if_splits option.splits sum.splits)
next
  case (AddConn i d) with assms show ?thesis
    by (auto simp: exec_def set_handler_def group_return_def
        split: if_splits prod.splits option.splits)
next
  case (ForwardBegin i) with assms show ?thesis
    by (auto simp: exec_def set_handler_def split: if_splits)
next
  case (ForwardEnd i r) with assms show ?thesis
    by (auto simp: exec_def set_handler_def split: if_splits)
next
  case (RemoveConn i) with assms show ?thesis
    by (auto simp: exec_def set_handler_def group_return_def panics_def
        split: if_splits sum.splits)
next
  case CallStop with assms show ?thesis
    by (auto simp: exec_def panics_def split: if_splits sum.splits)
next
  case (OtherStart p) with assms show ?thesis
    by (auto simp: exec_def split: if_splits prod.splits option.splits)
next
  case (Cancel k) with assms show ?thesis by (auto simp: exec_def split: if_splits)
qed

lemma exec_gerr_kept:
  assumes "exec a s = Some s'" "gerr s = Some e"
  shows "gerr s' = Some e"
proof (cases a)
  case (CallStart p) with assms show ?thesis
    by (auto simp: exec_def split: if_splits prod.splits option.splits)
next
  case (Setup env) with assms show ?thesis
    by (auto simp: exec_def split: if_splits prod.splits sum.splits)
next
  case Spawn with assms show ?thesis by (auto simp: exec_def split: if_splits)
next
  case NotifyStarted with assms show ?thesis by (auto simp: exec_def split: if_splits)
next
  case Receive with assms show ?thesis
    by (auto simp: exec_def split: if_splits listen_pc.splits prod.splits)
next
  case ListenInit with assms show ?thesis
    by (auto simp: exec_def panics_def split: if_splits option.splits)
next
  case ListenWake with assms show ?thesis
    by (auto simp: exec_def panics_def split: if_splits option.splits)
next
  case ListenWait with assms show ?thesis by (auto simp: exec_def split: if_splits)
next
  case ListenSelect with assms show ?thesis
    by (auto simp: exec_def panics_def split: if_splits option.splits listen_pc.splits)
next
  case (Accept r) with assms show ?thesis
    by (auto simp: exec_def panics_def group_return_def Let_def
        split: if_splits option.splits sum.splits)
next
  case (AddConn i d) with assms show ?thesis
    by (auto simp: exec_def set_handler_def group_return_def
        split: if_splits prod.splits option.splits)
next
  case (ForwardBegin i) with assms show ?thesis
    by (auto simp: exec_def set_handler_def split: if_splits)
next
  case (ForwardEnd i r) with assms show ?thesis
    by (auto simp: exec_def set_handler_def split: if_splits)
next
  case (RemoveConn i) with assms show ?thesis
    by (auto simp: exec_def set_handler_def group_return_def panics_def
        split: if_splits sum.splits)
next
  case CallStop with assms show ?thesis
    by (auto simp: exec_def panics_def split: if_splits sum.splits)
next
  case (OtherStart p) with assms show ?thesis
    by (auto simp: exec_def split: if_splits prod.splits option.splits)
next
  case (Cancel k) with assms show ?thesis by (auto simp: exec_def split: if_splits)
qed

lemma run_gerr_kept: "run as s = Some s' \<Longrightarrow> gerr s = Some e \<Longrightarrow> gerr s' = Some e"
proof (induction as arbitrary: s)
  case Nil
  then show ?case by simp
next
  case (Cons a as)
  then show ?case by (auto split: option.splits dest: exec_gerr_kept)
qed

text \<open>The final select of listen, as a step.\<close>

lemma exec_ListenSelect:
  assumes "exec ListenSelect s = Some s'" "inv_threads s"
  shows "\<exists>err. listenpc s = L_Select err
           \<and> s' = s\<lparr>listenpc := L_Send (if tun_ctx_done (wld s) then None else err),
                     ctx_seen := Some (tun_ctx_done (wld s))\<rparr>"
proof -
  from assms(1) obtain err where l: "listenpc s = L_Select err"
    by (auto simp: exec_def split: if_splits listen_pc.splits)
  with assms(2) obtain c where c: "ctx (tun (wld s)) = Some c"
    by (auto simp: inv_threads_def)
  from assms(1) l c show ?thesis
    by (auto simp: exec_def tun_ctx_done_def split: if_splits)
qed

lemma exec_ctx_seen_kept:
  assumes "exec a s = Some s'" "inv_group s" "ctx_seen s = Some b"
  shows "ctx_seen s' = Some b"
proof (cases "a = ListenSelect")
  case True
  with assms(1) obtain err where "listenpc s = L_Select err"
    by (auto simp: exec_def split: if_splits listen_pc.splits)
  with assms(2,3) show ?thesis by (simp add: inv_group_def)
next
  case False
  with assms(1,3) show ?thesis by (simp add: exec_ctx_seen_same)
qed

lemma run_ctx_seen_kept:
  "run as s = Some s' \<Longrightarrow> run_inv w0 s \<Longrightarrow> ctx_seen s = Some b \<Longrightarrow> ctx_seen s' = Some b"
proof (induction as arbitrary: s)
  case Nil
  then show ?case by simp
next
  case (Cons a as)
  from Cons.prems(1) obtain s1 where s1: "exec a s = Some s1" "run as s1 = Some s'"
    by (auto split: option.splits)
  from s1(1) Cons.prems(2) have "run_inv w0 s1" by (rule exec_run_inv)
  moreover from s1(1) Cons.prems(2,3) have "ctx_seen s1 = Some b"
    by (auto simp: run_inv_def dest: exec_ctx_seen_kept)
  ultimately show ?case using Cons.IH s1(2) by blast
qed

text \<open>A run in which the select was made passes through the step that made it.\<close>

lemma run_split_at_select:
  "run acts s0 = Some s \<Longrightarrow> ctx_seen s0 = None \<Longrightarrow> ctx_seen s \<noteq> None \<Longrightarrow>
   \<exists>acts1 acts2 s1 s2. acts = acts1 @ ListenSelect # acts2 \<and> run acts1 s0 = Some s1
      \<and> exec ListenSelect s1 = Some s2 \<and> run acts2 s2 = Some s \<and> ctx_seen s1 = None
      \<and> ctx_seen s2 \<noteq> None"
proof (induction acts arbitrary: s0)
  case Nil
  then show ?case by simp
next
  case (Cons a as)
  from Cons.prems(1) obtain t where t: "exec a s0 = Some t" "run as t = Some s"
    by (auto split: option.splits)
  show ?case
  proof (cases "ctx_seen t = None")
    case True
    from Cons.IH [OF t(2) True Cons.prems(3)] obtain acts1 acts2 s1 s2 where
      d: "as = acts1 @ ListenSelect # acts2" "run acts1 t = Some s1"
         "exec ListenSelect s1 = Some s2" "run acts2 s2 = Some s" "ctx_seen s1 = None"
         "ctx_seen s2 \<noteq> None"
      by blast
    from d(1) have "a # as = (a # acts1) @ ListenSelect # acts2" by simp
    moreover from t(1) d(2) have "run (a # acts1) s0 = Some s1" by simp
    ultimately show ?thesis using d(3,4,5,6) by blast
  next
    case False
    have a: "a = ListenSelect"
    proof (rule ccontr)
      assume "a \<noteq> ListenSelect"
      with t(1) have "ctx_seen t = ctx_seen s0" by (rule exec_ctx_seen_same)
      with False Cons.prems(2) show False by simp
    qed
    then have "a # as = [] @ ListenSelect # as" by simp
    moreover have "run [] s0 = Some s0" by simp
    ultimately show ?thesis using t a False Cons.prems(2) by blast
  qed
qed

lemma run_split:
  "run (xs @ a # ys) s0 = Some s \<Longrightarrow>
   \<exists>s1 s2. run xs s0 = Some s1 \<and> exec a s1 = Some s2 \<and> run ys s2 = Some s"
  by (auto simp: run_append split: option.splits)

text \<open>What Start returns, from the state at the final select of listen.\<close>

lemma return_follows_select:
  assumes "run acts1 (init_sys w0) = Some s1" "exec ListenSelect s1 = Some s2"
      and "run acts2 s2 = Some s" "mainpc s = M_Returned r"
  shows "r = (if tun_ctx_done (wld s1) then None else gerr s1)
       \<and> (\<not> tun_ctx_done (wld s1) \<longrightarrow> gerr s1 \<noteq> None)"
proof -
  from assms(1) have i1: "run_inv w0 s1" by (rule reachable_inv)
  then have t1: "inv_threads s1" and g1: "inv_group s1" by (simp_all add: run_inv_def)
  from exec_ListenSelect [OF assms(2) t1] obtain err where
    l: "listenpc s1 = L_Select err"
    and s2: "s2 = s1\<lparr>listenpc := L_Send (if tun_ctx_done (wld s1) then None else err),
                       ctx_seen := Some (tun_ctx_done (wld s1))\<rparr>"
    by blast
  from assms(2) i1 have i2: "run_inv w0 s2" by (rule exec_run_inv)
  from assms(3) i2 have i: "run_inv w0 s" by (rule run_run_inv)
  from s2 have "ctx_seen s2 = Some (tun_ctx_done (wld s1))" by simp
  with assms(3) i2 have cs: "ctx_seen s = Some (tun_ctx_done (wld s1))"
    by (rule run_ctx_seen_kept)
  from i assms(4) cs have ro: "result_ok r s"
    by (auto simp: run_inv_def inv_group_def split: if_splits)
  from g1 l have e1: "err = None \<longrightarrow> tun_ctx_done (wld s1)"
    and e2: "\<forall>e. err = Some e \<longrightarrow> gerr s1 = Some e"
    by (simp_all add: inv_group_def)
  show ?thesis
  proof (cases "tun_ctx_done (wld s1)")
    case True
    with ro cs show ?thesis by (simp add: result_ok_def)
  next
    case False
    with e1 obtain e where e: "err = Some e" by auto
    with e2 have g: "gerr s1 = Some e" by simp
    with s2 have "gerr s2 = Some e" by simp
    with assms(3) have "gerr s = Some e" by (rule run_gerr_kept)
    with ro cs False have "r = Some e" by (auto simp: result_ok_def)
    with g False show ?thesis by simp
  qed
qed

lemma returned_run_passes_select:
  assumes "run acts (init_sys w0) = Some s" "mainpc s = M_Returned r"
  shows "(listenpc s = L_NotSpawned \<and> r \<noteq> None)
       \<or> (\<exists>acts1 acts2 s1 s2. acts = acts1 @ ListenSelect # acts2
             \<and> run acts1 (init_sys w0) = Some s1 \<and> exec ListenSelect s1 = Some s2
             \<and> run acts2 s2 = Some s)"
proof -
  from assms(1) have i: "run_inv w0 s" by (rule reachable_inv)
  with assms(2) have c: "(listenpc s = L_NotSpawned \<and> r \<noteq> None) \<or> ctx_seen s \<noteq> None"
    by (auto simp: run_inv_def inv_group_def result_ok_def split: if_splits)
  show ?thesis
  proof (cases "ctx_seen s = None")
    case True
    with c show ?thesis by simp
  next
    case False
    have "ctx_seen (init_sys w0) = None" by (simp add: init_sys_def)
    from run_split_at_select [OF assms(1) this False] show ?thesis by blast
  qed
qed

section \<open>Claims about the sequential functions\<close>

text \<open>
  C10. \<open>fromEndpoint\<close> is the local endpoint and \<open>toEndpoint\<close> the remote one when
  the forward type is Local, and the reverse when it is Remote; so \<open>toEndpoint\<close> of a
  tunnel is \<open>fromEndpoint\<close> of the same tunnel with the forward type flipped, and
  \<open>forwardFromName\<close> and \<open>forwardToName\<close> give "local" and "remote" in step with that.
\<close>

theorem endpoint_swap_symmetry:
  "(forwardType t = Local \<longrightarrow> fromEndpoint t = local t \<and> toEndpoint t = remote t
       \<and> forwardFromName t = ''local'' \<and> forwardToName t = ''remote'')
   \<and> (forwardType t = Remote \<longrightarrow> fromEndpoint t = remote t \<and> toEndpoint t = local t
       \<and> forwardFromName t = ''remote'' \<and> forwardToName t = ''local'')
   \<and> (forwardType t = Local \<or> forwardType t = Remote \<longrightarrow>
         toEndpoint t = fromEndpoint (SetForwardType (flip (forwardType t)) t)
       \<and> fromEndpoint t = toEndpoint (SetForwardType (flip (forwardType t)) t)
       \<and> forwardToName t = forwardFromName (SetForwardType (flip (forwardType t)) t)
       \<and> forwardFromName t = forwardToName (SetForwardType (flip (forwardType t)) t))"
  by (simp add: fromEndpoint_def toEndpoint_def forwardFromName_def forwardToName_def
      SetForwardType_def flip_def Local_def Remote_def)

theorem endpoint_swap_symmetry_witness:
  "forwardType (New 8080 ''h'' 80) = Local
   \<and> forwardType (NewRemote 8080 ''h'' 80) = Remote
   \<and> fromEndpoint (New 8080 ''h'' 80) = NewTCPEndpoint ''localhost'' 8080
   \<and> toEndpoint (New 8080 ''h'' 80) = NewTCPEndpoint ''localhost'' 80
   \<and> fromEndpoint (NewRemote 8080 ''h'' 80) = NewTCPEndpoint ''localhost'' 80
   \<and> toEndpoint (NewRemote 8080 ''h'' 80) = NewTCPEndpoint ''localhost'' 8080
   \<and> toEndpoint (New 8080 ''h'' 80) = fromEndpoint (SetForwardType Remote (New 8080 ''h'' 80))
   \<and> forwardFromName (NewRemote 8080 ''h'' 80) = ''remote''"
  using endpoint_swap_symmetry [of "New 8080 ''h'' 80"]
        endpoint_swap_symmetry [of "NewRemote 8080 ''h'' 80"]
  by (simp add: New_def NewRemote_def flip_def Local_def Remote_def SetForwardType_def)

text \<open>
  C7. \<open>addConn\<close> in Local mode, as one step under the mutex: it dials the server exactly
  when \<open>active\<close> is 0; when that dial fails it returns the wrapped dial error and leaves
  the tunnel, with \<open>active\<close> and the session, as it was; when the dial succeeds it stores
  the session; and when the dial succeeds or \<open>active\<close> is not 0 it adds one to \<open>active\<close>
  and returns nil.
\<close>

theorem addConn_local:
  assumes "forwardType (tun w) = Local" and "addConn d w = (r, w')"
  shows "events w' = events w @ (if active (tun w) = 0 then [SSHDial (server (tun w)) d] else [])
       \<and> (\<forall>err. active (tun w) = 0 \<and> d = Inl err \<longrightarrow>
             r = Some (SSHDialFailed (server (tun w)) err) \<and> tun w' = tun w)
       \<and> (\<forall>c. active (tun w) = 0 \<and> d = Inr c \<longrightarrow>
             r = None \<and> tun w' = (tun w)\<lparr>sshClient := Some c, active := active (tun w) + 1\<rparr>)
       \<and> (active (tun w) \<noteq> 0 \<longrightarrow>
             r = None \<and> tun w' = (tun w)\<lparr>active := active (tun w) + 1\<rparr>)"
  using assms by (auto simp: addConn_def Let_def split: sum.splits)

theorem addConn_local_witness:
  "forwardType (tun (new_world (New 8080 ''h'' 80))) = Local
   \<and> addConn (Inl ''refused'') (new_world (New 8080 ''h'' 80))
       = (Some (SSHDialFailed (NewTCPEndpoint ''h'' 22) ''refused''),
          (new_world (New 8080 ''h'' 80))
            \<lparr>events := [SSHDial (NewTCPEndpoint ''h'' 22) (Inl ''refused'')]\<rparr>)
   \<and> active (tun (snd (addConn (Inr 5) (new_world (New 8080 ''h'' 80))))) = 1
   \<and> sshClient (tun (snd (addConn (Inr 5) (new_world (New 8080 ''h'' 80))))) = Some 5"
  using addConn_local [of "new_world (New 8080 ''h'' 80)" "Inl ''refused''"
          "fst (addConn (Inl ''refused'') (new_world (New 8080 ''h'' 80)))"
          "snd (addConn (Inl ''refused'') (new_world (New 8080 ''h'' 80)))"]
  by (simp add: addConn_def new_world_def New_def Local_def Let_def)

text \<open>
  C9. In Remote mode \<open>addConn\<close> returns nil whatever a dial would answer, \<open>removeConn\<close>
  does not panic, and both only add one to, or take one from, \<open>active\<close>: no dial, no
  close, and the session field is neither read nor written.
\<close>

theorem remote_mode_counts_only:
  assumes "forwardType (tun w) = Remote"
  shows "addConn d w = (None, w\<lparr>tun := (tun w)\<lparr>active := active (tun w) + 1\<rparr>\<rparr>)
       \<and> removeConn w = Inr (w\<lparr>tun := (tun w)\<lparr>active := active (tun w) - 1\<rparr>\<rparr>)"
  using assms by (simp add: addConn_def removeConn_def Let_def Local_def Remote_def)

theorem remote_mode_counts_only_witness:
  "forwardType (tun (new_world (NewRemote 8080 ''h'' 80))) = Remote
   \<and> fst (addConn (Inl ''refused'') (new_world (NewRemote 8080 ''h'' 80))) = None
   \<and> sshClient (tun (snd (addConn (Inl ''refused'') (new_world (NewRemote 8080 ''h'' 80))))) = None
   \<and> events (snd (addConn (Inl ''refused'') (new_world (NewRemote 8080 ''h'' 80)))) = []
   \<and> removeConn (snd (addConn (Inl ''refused'') (new_world (NewRemote 8080 ''h'' 80))))
       = Inr (new_world (NewRemote 8080 ''h'' 80))"
  using remote_mode_counts_only [of "new_world (NewRemote 8080 ''h'' 80)" "Inl ''refused''"]
        remote_mode_counts_only
          [of "snd (addConn (Inl ''refused'') (new_world (NewRemote 8080 ''h'' 80)))" "Inl []"]
  by (simp add: new_world_def NewRemote_def New_def Remote_def)

text \<open>
  C5. On a tunnel whose \<open>started\<close> flag is set, Start returns at once with the error
  "already started": no notification, and no field of the tunnel changes, so the run in
  progress is not touched.
\<close>

theorem start_already_started:
  assumes "started (tun w)"
  shows "Start_lock parent w = (Some AlreadyStarted, w)
       \<and> Start_prefix parent env w = (Inl (Some AlreadyStarted), w)
       \<and> (crashed s = None \<and> wld s = w \<longrightarrow> exec (OtherStart parent) s = Some s)"
  using assms by (auto simp: Start_lock_def Start_prefix_def exec_def)

theorem start_already_started_witness:
  "started (tun (snd (Start_lock Background (new_world (New 8080 ''h'' 80)))))
   \<and> Start_lock (WithCancel 7 Background) (snd (Start_lock Background (new_world (New 8080 ''h'' 80))))
      = (Some AlreadyStarted, snd (Start_lock Background (new_world (New 8080 ''h'' 80))))"
  using start_already_started
          [of "snd (Start_lock Background (new_world (New 8080 ''h'' 80)))" "WithCancel 7 Background"]
  by (simp add: Start_lock_def new_world_def New_def)

text \<open>
  C8. On a tunnel whose \<open>started\<close> flag is not set, \<open>Stop\<close> cancels nothing, notifies
  nothing and changes no field. On any tunnel whose cancel function is set whenever
  \<open>started\<close> is (\<open>cancel_set\<close>: Start sets both under the mutex, and every step of a
  run keeps it, see \<open>run_cancel_set\<close>), \<open>Stop\<close> does not panic, changes neither the
  tunnel nor the events, and any number of further calls leave the state as the first
  call left it.
\<close>

theorem stop_idempotent:
  "(\<not> started (tun w) \<longrightarrow> Stop w = Inr w)
   \<and> (cancel_set w \<longrightarrow>
        (\<exists>w'. Stop w = Inr w' \<and> tun w' = tun w \<and> events w' = events w
              \<and> (\<forall>n. Stop_times (Suc n) w = Inr w')))"
proof -
  have idem: "Stop w' = Inr w' \<Longrightarrow> Stop_times n w' = Inr w'" for w' n
    by (induction n) simp_all
  have 1: "\<not> started (tun w) \<longrightarrow> Stop w = Inr w"
    by (simp add: Stop_def)
  have 2: "cancel_set w \<longrightarrow>
        (\<exists>w'. Stop w = Inr w' \<and> tun w' = tun w \<and> events w' = events w
              \<and> (\<forall>n. Stop_times (Suc n) w = Inr w'))"
  proof
    assume "cancel_set w"
    then have a: "started (tun w) \<longrightarrow> cancel (tun w) \<noteq> None"
      by (simp add: cancel_set_def)
    show "\<exists>w'. Stop w = Inr w' \<and> tun w' = tun w \<and> events w' = events w
              \<and> (\<forall>n. Stop_times (Suc n) w = Inr w')"
    proof (cases "started (tun w)")
      case False
      then have "Stop w = Inr w" by (simp add: Stop_def)
      with idem [of w] show ?thesis by simp
    next
      case True
      with a obtain k where k: "cancel (tun w) = Some k" by auto
      let ?w' = "w\<lparr>cancelled := insert k (cancelled w)\<rparr>"
      from True k have s: "Stop w = Inr ?w'" by (simp add: Stop_def)
      from True k have "Stop ?w' = Inr ?w'" by (simp add: Stop_def insert_absorb)
      with idem [of ?w'] s show ?thesis by simp
    qed
  qed
  from 1 2 show ?thesis by blast
qed

theorem stop_idempotent_witness:
  "\<not> started (tun (new_world (New 8080 ''h'' 80)))
   \<and> Stop (new_world (New 8080 ''h'' 80)) = Inr (new_world (New 8080 ''h'' 80))
   \<and> started (tun (snd (Start_lock Background (new_world (New 8080 ''h'' 80)))))
   \<and> cancel (tun (snd (Start_lock Background (new_world (New 8080 ''h'' 80))))) = Some 0
   \<and> Stop_times 3 (snd (Start_lock Background (new_world (New 8080 ''h'' 80))))
       = Stop (snd (Start_lock Background (new_world (New 8080 ''h'' 80))))"
  using stop_idempotent [of "new_world (New 8080 ''h'' 80)"]
        stop_idempotent [of "snd (Start_lock Background (new_world (New 8080 ''h'' 80)))"]
  by (simp add: Start_lock_def Stop_def new_world_def New_def numeral_3_eq_3 cancel_set_def)

text \<open>
  C4. With a tunnel-state callback registered, when Start fails while it sets up the
  listen side (the SSH config, the local listener in Local mode, the dial of the server
  or the remote listen in Remote mode), the callback sees exactly Starting then Stopped,
  never Started; \<open>started\<close> is false again; and Start returns the wrapped error of the
  phase that failed: "ssh config failed", "local listen ... failed", "ssh dial ...
  failed" or "remote listen ... failed".
\<close>

theorem start_setup_failure:
  assumes "\<not> started (tun w)" and "connState (tun w) \<noteq> None"
      and "(authResult env = Inl c \<and> e = SSHConfigFailed c)
         \<or> ((\<exists>a. authResult env = Inr a) \<and> forwardType (tun w) = Local
              \<and> localListen env = Inl c \<and> e = LocalListenFailed (local (tun w)) c)
         \<or> ((\<exists>a. authResult env = Inr a) \<and> forwardType (tun w) = Remote
              \<and> serverDial env = Inl c \<and> e = SSHDialFailed (server (tun w)) c)
         \<or> ((\<exists>a. authResult env = Inr a) \<and> forwardType (tun w) = Remote
              \<and> (\<exists>k. serverDial env = Inr k)
              \<and> remoteListen env = Inl c \<and> e = RemoteListenFailed (remote (tun w)) c)"
  shows "\<exists>w'. Start_prefix parent env w = (Inl (Some e), w')
            \<and> conn_states (events w') = conn_states (events w) @ [StateStarting, StateStopped]
            \<and> \<not> started (tun w')"
  using assms
  by (auto simp: Start_prefix_def Start_lock_def Start_setup_def Let_def stop_def notify_def
      initSSHConfig_def conn_states_append Local_def Remote_def)

theorem start_setup_failure_witness:
  "\<not> started (tun (new_world (SetConnState 1 (New 8080 ''h'' 80))))
   \<and> connState (tun (new_world (SetConnState 1 (New 8080 ''h'' 80)))) \<noteq> None
   \<and> fst (Start_prefix Background
        \<lparr>authResult = Inr 7, localListen = Inl ''address already in use'',
         serverDial = Inr 5, remoteListen = Inr 4\<rparr>
        (new_world (SetConnState 1 (New 8080 ''h'' 80))))
      = Inl (Some (LocalListenFailed (NewTCPEndpoint ''localhost'' 8080)
                     ''address already in use''))
   \<and> events (snd (Start_prefix Background
        \<lparr>authResult = Inr 7, localListen = Inl ''address already in use'',
         serverDial = Inr 5, remoteListen = Inr 4\<rparr>
        (new_world (SetConnState 1 (New 8080 ''h'' 80)))))
      = [ConnStateCall StateStarting, ConnStateCall StateStopped]"
  using start_setup_failure [of "new_world (SetConnState 1 (New 8080 ''h'' 80))"
          "\<lparr>authResult = Inr 7, localListen = Inl ''address already in use'',
            serverDial = Inr 5, remoteListen = Inr 4\<rparr>"
          "''address already in use''"
          "LocalListenFailed (NewTCPEndpoint ''localhost'' 8080) ''address already in use''"
          Background]
  by (simp add: Start_prefix_def Start_lock_def Start_setup_def Let_def stop_def notify_def
      initSSHConfig_def new_world_def New_def SetConnState_def Local_def)

text \<open>
  C3. Local mode, \<open>addConn\<close> and \<open>removeConn\<close> in any order the mutex serialises, from
  a tunnel at rest (\<open>active\<close> 0, no session), every \<open>removeConn\<close> after an \<open>addConn\<close>
  that returned nil and that no earlier \<open>removeConn\<close> has used up, fewer than \<open>2 ^ 63\<close>
  calls (the width of \<open>active\<close>). Then no call panics; before and after every call
  \<open>active\<close> is the number of connections held, so it is never negative, and the session
  is set exactly when \<open>active\<close> is positive; a call opens a session exactly when it takes
  \<open>active\<close> from 0 to 1 and closes one exactly when it takes it from 1 to 0; and over the
  whole sequence one more session was opened than closed while \<open>active\<close> is positive,
  and as many otherwise.
\<close>

theorem session_refcount:
  assumes "forwardType (tun w0) = Local" "active (tun w0) = 0" "sshClient (tun w0) = None"
      and "length (pre @ [x]) < 2 ^ 63"
      and "pool_run (pre @ [x]) 0 w0 \<noteq> Unmatched"
  shows "\<exists>h w h' w'.
           pool_run pre 0 w0 = Pool h w \<and> pool_step x h w = Pool h' w'
         \<and> pool_run (pre @ [x]) 0 w0 = Pool h' w'
         \<and> sint (active (tun w)) = int h \<and> sint (active (tun w')) = int h'
         \<and> (sshClient (tun w) \<noteq> None \<longleftrightarrow> 0 < sint (active (tun w)))
         \<and> (sshClient (tun w') \<noteq> None \<longleftrightarrow> 0 < sint (active (tun w')))
         \<and> (\<exists>new. events w' = events w @ new
               \<and> opened new = (if h = 0 \<and> h' = 1 then 1 else 0)
               \<and> closes new = (if h = 1 \<and> h' = 0 then 1 else 0))
         \<and> (\<exists>all. events w' = events w0 @ all
               \<and> opened all = closes all + (if h' = 0 then 0 else 1))"
proof -
  have i0: "pool_inv 0 w0" using assms(2,3) by (simp add: pool_inv_def)
  from assms(5) have nu: "pool_run pre 0 w0 \<noteq> Unmatched"
    by (auto simp: pool_run_append)
  from assms(4) have b: "0 + length pre < 2 ^ 63" by simp
  from pool_run_inv [OF assms(1) i0 b nu] obtain h w where
    p: "pool_run pre 0 w0 = Pool h w" "pool_inv h w" "forwardType (tun w) = Local"
       "h \<le> 0 + length pre"
    by blast
  from assms(4) have b2: "0 + length (pre @ [x]) < 2 ^ 63" by simp
  from pool_run_inv [OF assms(1) i0 b2 assms(5)] obtain h' w' all where
    q: "pool_run (pre @ [x]) 0 w0 = Pool h' w'" "pool_inv h' w'"
       "events w' = events w0 @ all"
       "opened all + (if (0::nat) = 0 then 0 else 1) = closes all + (if h' = 0 then 0 else 1)"
    by blast
  from q(1) p(1) have st: "pool_step x h w = Pool h' w'"
    by (auto simp: pool_run_append split: pool_result.splits)
  from p(4) assms(4) have "Suc h < 2 ^ 63" by simp
  moreover from st have "pool_step x h w \<noteq> Unmatched" by simp
  ultimately obtain new where
    n: "events w' = events w @ new" "opened new = (if h = 0 \<and> h' = 1 then 1 else 0)"
       "closes new = (if h = 1 \<and> h' = 0 then 1 else 0)"
    using pool_step_inv [OF p(3,2), of x] st by auto
  have sw: "sint (active (tun w)) = int h" "sint (active (tun w')) = int h'"
    using p(2) q(2) by (simp_all add: pool_inv_def sint_of_nat)
  have cw: "(sshClient (tun w) \<noteq> None) = (0 < h)" "(sshClient (tun w') \<noteq> None) = (0 < h')"
    using p(2) q(2) by (auto simp: pool_inv_def)
  have c1: "sshClient (tun w) \<noteq> None \<longleftrightarrow> 0 < sint (active (tun w))"
    using sw cw by simp
  have c2: "sshClient (tun w') \<noteq> None \<longleftrightarrow> 0 < sint (active (tun w'))"
    using sw cw by simp
  have e1: "\<exists>new. events w' = events w @ new
               \<and> opened new = (if h = 0 \<and> h' = 1 then 1 else 0)
               \<and> closes new = (if h = 1 \<and> h' = 0 then 1 else 0)"
    using n by blast
  have e2: "\<exists>all. events w' = events w0 @ all
               \<and> opened all = closes all + (if h' = 0 then 0 else 1)"
    using q(3,4) by auto
  from p(1) st q(1) sw c1 c2 e1 e2 show ?thesis by blast
qed

theorem session_refcount_witness:
  "forwardType (tun w_local) = Local \<and> active (tun w_local) = 0 \<and> sshClient (tun w_local) = None
   \<and> length ([Acquire (Inr 5), Acquire (Inl ''unused''), Release] @ [Release]) < 2 ^ 63
   \<and> pool_run ([Acquire (Inr 5), Acquire (Inl ''unused''), Release] @ [Release]) 0 w_local
     \<noteq> Unmatched
   \<and> pool_run [Acquire (Inr 5), Acquire (Inl ''unused''), Release, Release] 0 w_local
     = Pool 0 (w_local\<lparr>events :=
         [SSHDial (NewTCPEndpoint ''my.super.host.com'' 22) (Inr 5), SSHClose 5]\<rparr>)"
  using session_refcount [of w_local "[Acquire (Inr 5), Acquire (Inl ''unused''), Release]" Release]
  by (simp add: w_local_def new_world_def New_def addConn_def removeConn_def Local_def Let_def)

section \<open>Claims about a run of Start\<close>

text \<open>
  C2, as the code has it. The claim that Start returns nil exactly when its end was caused
  by cancellation fails in both directions. In the first run below the accept loop fails
  while \<open>tun.ctx\<close> is not cancelled, and \<open>listen\<close> has come back from \<open>errGroup.Wait\<close>
  with the accept error and \<open>tun.ctx\<close> not done; a \<open>Stop\<close> that comes then, before the
  final \<open>select\<close>, makes Start return nil although the accept failure ended the accept
  loop. In the second run \<open>Stop\<close> is called after the prologue of Start and before the
  local listener is bound: \<open>tun.ctx\<close> is done, the bind fails, and Start returns the listen
  error, which is not nil.
\<close>

theorem nil_after_accept_failure:
  "map_option listenpc (run sched_accept_failed (init_sys (new_world tun_demo)))
     = Some (L_Select (Some (AcceptFailed ''local'' (NewTCPEndpoint ''localhost'' 8080)
                               ''too many open files'')))
   \<and> map_option (tun_ctx_done \<circ> wld) (run sched_accept_failed (init_sys (new_world tun_demo)))
     = Some False
   \<and> map_option mainpc (run sched_late_stop (init_sys (new_world tun_demo)))
     = Some (M_Returned None)
   \<and> map_option (tun_ctx_done \<circ> wld)
        (run [CallStart Background, CallStop] (init_sys (new_world tun_demo))) = Some True
   \<and> map_option mainpc (run sched_stop_before_setup (init_sys (new_world tun_demo)))
     = Some (M_Returned (Some (LocalListenFailed (NewTCPEndpoint ''localhost'' 8080)
                                 ''address already in use'')))"
  by code_simp

text \<open>
  C2, amended. A call of Start that returns either returned before \<open>listen\<close> was started,
  with an error that is not nil (whether or not \<open>tun.ctx\<close> is cancelled), or its run passed
  the final \<open>select\<close> of \<open>listen\<close>. For that \<open>select\<close>, taken in the state \<open>s1\<close>: Start
  returns nil exactly when \<open>tun.ctx\<close> is done in \<open>s1\<close>, whatever ended the accept loop; when
  \<open>tun.ctx\<close> is not done in \<open>s1\<close>, Start returns the first error of the error group as it
  is in \<open>s1\<close>, which is a wrapped accept error or a wrapped dial error of \<open>addConn\<close>, and
  the wrapped accept error when no \<open>handle\<close> has returned an error.
\<close>

theorem start_result_by_final_select:
  assumes "run acts (init_sys w0) = Some s" "mainpc s = M_Returned r"
  shows "(\<forall>acts1 acts2 s1 s2.
            run acts1 (init_sys w0) = Some s1 \<and> exec ListenSelect s1 = Some s2
            \<and> run acts2 s2 = Some s \<longrightarrow>
              (r = None \<longleftrightarrow> tun_ctx_done (wld s1))
            \<and> (\<not> tun_ctx_done (wld s1) \<longrightarrow>
                  r = gerr s1
                \<and> (\<exists>c. r = Some (AcceptFailed (forwardFromName (tun (wld s1)))
                                                 (fromEndpoint (tun (wld s1))) c)
                       \<or> r = Some (SSHDialFailed (server (tun (wld s1))) c))
                \<and> ((\<forall>i e. i < length (handlers s1) \<longrightarrow>
                             snd (handlers s1 ! i) \<noteq> H_Done (Some e)) \<longrightarrow>
                     (\<exists>c. r = Some (AcceptFailed (forwardFromName (tun (wld s1)))
                                                   (fromEndpoint (tun (wld s1))) c)))))
       \<and> ((listenpc s = L_NotSpawned \<and> r \<noteq> None)
          \<or> (\<exists>acts1 acts2 s1 s2. acts = acts1 @ ListenSelect # acts2
                \<and> run acts1 (init_sys w0) = Some s1 \<and> exec ListenSelect s1 = Some s2
                \<and> run acts2 s2 = Some s))"
proof (rule conjI)
  show "\<forall>acts1 acts2 s1 s2.
            run acts1 (init_sys w0) = Some s1 \<and> exec ListenSelect s1 = Some s2
            \<and> run acts2 s2 = Some s \<longrightarrow>
              (r = None \<longleftrightarrow> tun_ctx_done (wld s1))
            \<and> (\<not> tun_ctx_done (wld s1) \<longrightarrow>
                  r = gerr s1
                \<and> (\<exists>c. r = Some (AcceptFailed (forwardFromName (tun (wld s1)))
                                                 (fromEndpoint (tun (wld s1))) c)
                       \<or> r = Some (SSHDialFailed (server (tun (wld s1))) c))
                \<and> ((\<forall>i e. i < length (handlers s1) \<longrightarrow>
                             snd (handlers s1 ! i) \<noteq> H_Done (Some e)) \<longrightarrow>
                     (\<exists>c. r = Some (AcceptFailed (forwardFromName (tun (wld s1)))
                                                   (fromEndpoint (tun (wld s1))) c))))"
  proof (intro allI impI)
    fix acts1 acts2 s1 s2
    assume a: "run acts1 (init_sys w0) = Some s1 \<and> exec ListenSelect s1 = Some s2
            \<and> run acts2 s2 = Some s"
    then have r1: "run acts1 (init_sys w0) = Some s1" and x: "exec ListenSelect s1 = Some s2"
      and r2: "run acts2 s2 = Some s" by simp_all
    from return_follows_select [OF r1 x r2 assms(2)]
    have v: "r = (if tun_ctx_done (wld s1) then None else gerr s1)"
      and n: "\<not> tun_ctx_done (wld s1) \<longrightarrow> gerr s1 \<noteq> None" by simp_all
    from r1 have ie: "inv_errors s1" by (auto dest: reachable_inv simp: run_inv_def)
    have 1: "r = None \<longleftrightarrow> tun_ctx_done (wld s1)" using v n by auto
    have 2: "\<not> tun_ctx_done (wld s1) \<longrightarrow>
                  r = gerr s1
                \<and> (\<exists>c. r = Some (AcceptFailed (forwardFromName (tun (wld s1)))
                                                 (fromEndpoint (tun (wld s1))) c)
                       \<or> r = Some (SSHDialFailed (server (tun (wld s1))) c))
                \<and> ((\<forall>i e. i < length (handlers s1) \<longrightarrow>
                             snd (handlers s1 ! i) \<noteq> H_Done (Some e)) \<longrightarrow>
                     (\<exists>c. r = Some (AcceptFailed (forwardFromName (tun (wld s1)))
                                                   (fromEndpoint (tun (wld s1))) c)))"
    proof
      assume nd: "\<not> tun_ctx_done (wld s1)"
      with v n obtain e where e: "r = Some e" "gerr s1 = Some e" by auto
      from ie e(2) have src: "acceptpc s1 = A_Done e
            \<or> (\<exists>i. i < length (handlers s1) \<and> snd (handlers s1 ! i) = H_Done (Some e))"
        unfolding inv_errors_def by blast
      from ie have sa: "acceptpc s1 = A_Done e \<Longrightarrow>
          \<exists>c. e = AcceptFailed (forwardFromName (tun (wld s1))) (fromEndpoint (tun (wld s1))) c"
        unfolding inv_errors_def by blast
      from ie have sh: "\<And>i. i < length (handlers s1) \<Longrightarrow> snd (handlers s1 ! i) = H_Done (Some e)
          \<Longrightarrow> \<exists>c. e = SSHDialFailed (server (tun (wld s1))) c"
        unfolding inv_errors_def by blast
      have shape: "\<exists>c. r = Some (AcceptFailed (forwardFromName (tun (wld s1)))
                                                 (fromEndpoint (tun (wld s1))) c)
                       \<or> r = Some (SSHDialFailed (server (tun (wld s1))) c)"
        using src sa sh e(1) by blast
      have acc: "(\<forall>i e. i < length (handlers s1) \<longrightarrow>
                             snd (handlers s1 ! i) \<noteq> H_Done (Some e)) \<longrightarrow>
                     (\<exists>c. r = Some (AcceptFailed (forwardFromName (tun (wld s1)))
                                                   (fromEndpoint (tun (wld s1))) c))"
        using src sa e(1) by blast
      from e shape acc show "r = gerr s1
                \<and> (\<exists>c. r = Some (AcceptFailed (forwardFromName (tun (wld s1)))
                                                 (fromEndpoint (tun (wld s1))) c)
                       \<or> r = Some (SSHDialFailed (server (tun (wld s1))) c))
                \<and> ((\<forall>i e. i < length (handlers s1) \<longrightarrow>
                             snd (handlers s1 ! i) \<noteq> H_Done (Some e)) \<longrightarrow>
                     (\<exists>c. r = Some (AcceptFailed (forwardFromName (tun (wld s1)))
                                                   (fromEndpoint (tun (wld s1))) c)))"
        by simp
    qed
    from 1 2 show "(r = None \<longleftrightarrow> tun_ctx_done (wld s1))
            \<and> (\<not> tun_ctx_done (wld s1) \<longrightarrow>
                  r = gerr s1
                \<and> (\<exists>c. r = Some (AcceptFailed (forwardFromName (tun (wld s1)))
                                                 (fromEndpoint (tun (wld s1))) c)
                       \<or> r = Some (SSHDialFailed (server (tun (wld s1))) c))
                \<and> ((\<forall>i e. i < length (handlers s1) \<longrightarrow>
                             snd (handlers s1 ! i) \<noteq> H_Done (Some e)) \<longrightarrow>
                     (\<exists>c. r = Some (AcceptFailed (forwardFromName (tun (wld s1)))
                                                   (fromEndpoint (tun (wld s1))) c))))"
      by (rule conjI)
  qed
next
  from returned_run_passes_select [OF assms]
  show "(listenpc s = L_NotSpawned \<and> r \<noteq> None)
          \<or> (\<exists>acts1 acts2 s1 s2. acts = acts1 @ ListenSelect # acts2
                \<and> run acts1 (init_sys w0) = Some s1 \<and> exec ListenSelect s1 = Some s2
                \<and> run acts2 s2 = Some s)" .
qed

theorem start_result_by_final_select_witness:
  "(\<exists>s1 s. run sched_stop_waited (init_sys (new_world tun_demo)) = Some s1
        \<and> run sched_stopped (init_sys (new_world tun_demo)) = Some s
        \<and> tun_ctx_done (wld s1) \<and> mainpc s = M_Returned None)
   \<and> (\<exists>s1 s. run sched_accept_failed (init_sys (new_world tun_demo)) = Some s1
        \<and> run sched_accept_fails (init_sys (new_world tun_demo)) = Some s
        \<and> \<not> tun_ctx_done (wld s1)
        \<and> mainpc s = M_Returned (gerr s1)
        \<and> gerr s1 = Some (AcceptFailed ''local'' (NewTCPEndpoint ''localhost'' 8080)
                            ''too many open files''))"
proof (rule conjI)
  have eq: "sched_stopped = sched_stop_waited @ ListenSelect # [Receive]"
    by (simp add: sched_stopped_def sched_stop_waited_def)
  have "run sched_stopped (init_sys (new_world tun_demo)) \<noteq> None" by code_simp
  then obtain s where s: "run sched_stopped (init_sys (new_world tun_demo)) = Some s" by blast
  from s obtain s1 s2 where
    p: "run sched_stop_waited (init_sys (new_world tun_demo)) = Some s1"
       "exec ListenSelect s1 = Some s2" "run [Receive] s2 = Some s"
    unfolding eq by (blast dest: run_split)
  have "map_option mainpc (run sched_stopped (init_sys (new_world tun_demo)))
          = Some (M_Returned None)" by code_simp
  with s have m: "mainpc s = M_Returned None" by simp
  from start_result_by_final_select [OF s m]
  have "\<forall>acts1 acts2 s1 s2.
            run acts1 (init_sys (new_world tun_demo)) = Some s1 \<and> exec ListenSelect s1 = Some s2
            \<and> run acts2 s2 = Some s \<longrightarrow>
              ((None :: error option) = None \<longleftrightarrow> tun_ctx_done (wld s1))
            \<and> (\<not> tun_ctx_done (wld s1) \<longrightarrow>
                  None = gerr s1
                \<and> (\<exists>c. None = Some (AcceptFailed (forwardFromName (tun (wld s1)))
                                                 (fromEndpoint (tun (wld s1))) c)
                       \<or> None = Some (SSHDialFailed (server (tun (wld s1))) c))
                \<and> ((\<forall>i e. i < length (handlers s1) \<longrightarrow>
                             snd (handlers s1 ! i) \<noteq> H_Done (Some e)) \<longrightarrow>
                     (\<exists>c. None = Some (AcceptFailed (forwardFromName (tun (wld s1)))
                                                   (fromEndpoint (tun (wld s1))) c))))"
    by (rule conjunct1)
  with p have "tun_ctx_done (wld s1)" by blast
  with p(1) s m
  show "\<exists>s1 s. run sched_stop_waited (init_sys (new_world tun_demo)) = Some s1
        \<and> run sched_stopped (init_sys (new_world tun_demo)) = Some s
        \<and> tun_ctx_done (wld s1) \<and> mainpc s = M_Returned None"
    by blast
next
  let ?e = "AcceptFailed ''local'' (NewTCPEndpoint ''localhost'' 8080) ''too many open files''"
  have eq: "sched_accept_fails = sched_accept_failed @ ListenSelect # [Receive]"
    by (simp add: sched_accept_fails_def sched_accept_failed_def)
  have "run sched_accept_fails (init_sys (new_world tun_demo)) \<noteq> None" by code_simp
  then obtain s where s: "run sched_accept_fails (init_sys (new_world tun_demo)) = Some s"
    by blast
  from s obtain s1 s2 where
    p: "run sched_accept_failed (init_sys (new_world tun_demo)) = Some s1"
       "exec ListenSelect s1 = Some s2" "run [Receive] s2 = Some s"
    unfolding eq by (blast dest: run_split)
  have "map_option mainpc (run sched_accept_fails (init_sys (new_world tun_demo)))
          = Some (M_Returned (Some (AcceptFailed ''local'' (NewTCPEndpoint ''localhost'' 8080)
                                      ''too many open files'')))" by code_simp
  with s have m: "mainpc s = M_Returned (Some ?e)" by simp
  have "map_option (tun_ctx_done \<circ> wld)
          (run sched_accept_failed (init_sys (new_world tun_demo))) = Some False" by code_simp
  with p(1) have nd: "\<not> tun_ctx_done (wld s1)" by simp
  from start_result_by_final_select [OF s m]
  have "\<forall>acts1 acts2 s1 s2.
            run acts1 (init_sys (new_world tun_demo)) = Some s1 \<and> exec ListenSelect s1 = Some s2
            \<and> run acts2 s2 = Some s \<longrightarrow>
              (Some ?e = None \<longleftrightarrow> tun_ctx_done (wld s1))
            \<and> (\<not> tun_ctx_done (wld s1) \<longrightarrow>
                  Some ?e = gerr s1
                \<and> (\<exists>c. Some ?e = Some (AcceptFailed (forwardFromName (tun (wld s1)))
                                                 (fromEndpoint (tun (wld s1))) c)
                       \<or> Some ?e = Some (SSHDialFailed (server (tun (wld s1))) c))
                \<and> ((\<forall>i e. i < length (handlers s1) \<longrightarrow>
                             snd (handlers s1 ! i) \<noteq> H_Done (Some e)) \<longrightarrow>
                     (\<exists>c. Some ?e = Some (AcceptFailed (forwardFromName (tun (wld s1)))
                                                   (fromEndpoint (tun (wld s1))) c))))"
    by (rule conjunct1)
  with p nd have g: "Some ?e = gerr s1" by blast
  with p(1) s m nd
  show "\<exists>s1 s. run sched_accept_failed (init_sys (new_world tun_demo)) = Some s1
        \<and> run sched_accept_fails (init_sys (new_world tun_demo)) = Some s
        \<and> \<not> tun_ctx_done (wld s1)
        \<and> mainpc s = M_Returned (gerr s1)
        \<and> gerr s1 = Some ?e"
    by (intro exI [of _ s1] exI [of _ s]) simp
qed

text \<open>
  C1, as the code has it. The claim that a dial failure inside \<open>addConn\<close> never ends
  the tunnel fails: \<open>handle\<close> returns the error of \<open>addConn\<close> to the error group. In the
  run below, in Local mode, the tunnel's context is never cancelled, one connection is
  accepted and its dial is refused; the group is cancelled, \<open>listen\<close> closes the
  listener, the accept loop ends, and Start returns the dial error after Stopped.
\<close>

theorem dial_failure_terminates_tunnel:
  "map_option mainpc (run sched_dial_fails (init_sys (new_world tun_demo)))
     = Some (M_Returned
         (Some (SSHDialFailed (NewTCPEndpoint ''my.super.host.com'' 22) ''refused'')))
   \<and> map_option acceptpc (run sched_dial_fails (init_sys (new_world tun_demo)))
     = Some (A_Done (AcceptFailed ''local'' (NewTCPEndpoint ''localhost'' 8080) ''closed''))
   \<and> map_option (conn_states \<circ> events \<circ> wld) (run sched_dial_fails (init_sys (new_world tun_demo)))
     = Some [StateStarting, StateStarted, StateStopped]"
  by code_simp

text \<open>
  C1, amended. In Local mode with \<open>active\<close> 0, a dial that fails inside \<open>addConn\<close>
  leaves the tunnel (\<open>active\<close>, the session) unchanged, calls no callback, and makes
  \<open>handle\<close> return the wrapped dial error to the error group of \<open>listen\<close>: the group's
  context is cancelled and the error is kept as the group's error if it is the first.
  Every error a \<open>handle\<close> has returned is such a dial error, and the group is then
  cancelled and has an error. With the group cancelled, \<open>listen\<close>, if it waits on the
  group's context, goes on and closes the listener. \<open>errGroup.Wait\<close> returns only when the
  accept loop has ended and every \<open>handle\<close> has returned, with the group's error. When
  Start returns after the final \<open>select\<close> of \<open>listen\<close>, it returns the group's error as it
  was at that \<open>select\<close>, which is not nil, if \<open>tun.ctx\<close> was not done there, and nil if it
  was. The group's error is always an accept error or such a dial error.
\<close>

theorem addConn_dial_failure_is_fatal:
  assumes "run acts (init_sys w0) = Some s"
  shows "(\<forall>i c s'. forwardType (tun (wld s)) = Local \<and> active (tun (wld s)) = 0
             \<and> exec (AddConn i (Inl c)) s = Some s' \<longrightarrow>
            handlers s' ! i = (fst (handlers s ! i),
                               H_Done (Some (SSHDialFailed (server (tun (wld s))) c)))
          \<and> gcancelled s'
          \<and> (gerr s = None \<longrightarrow> gerr s' = Some (SSHDialFailed (server (tun (wld s))) c))
          \<and> tun (wld s') = tun (wld s)
          \<and> events (wld s') = events (wld s) @ [SSHDial (server (tun (wld s))) (Inl c)])
       \<and> (\<forall>i e. i < length (handlers s) \<and> snd (handlers s ! i) = H_Done (Some e) \<longrightarrow>
            (\<exists>c. e = SSHDialFailed (server (tun (wld s))) c) \<and> gcancelled s \<and> gerr s \<noteq> None)
       \<and> (\<forall>l. gcancelled s \<and> listenpc s = L_WaitDone \<and> crashed s = None \<and> lis s = Some l \<longrightarrow>
            exec ListenWake s = Some (s\<lparr>listenpc := L_Wait, closed := True\<rparr>))
       \<and> (\<forall>s'. exec ListenWait s = Some s' \<longrightarrow>
            listenpc s = L_Wait \<and> accept_done (acceptpc s) \<and> list_all handler_done (handlers s)
          \<and> s' = s\<lparr>listenpc := L_Select (gerr s), gcancelled := True\<rparr>)
       \<and> (\<forall>acts1 acts2 s1 s2 r.
            run acts1 (init_sys w0) = Some s1 \<and> exec ListenSelect s1 = Some s2
            \<and> run acts2 s2 = Some s \<and> mainpc s = M_Returned r \<longrightarrow>
              r = (if tun_ctx_done (wld s1) then None else gerr s1)
            \<and> (\<not> tun_ctx_done (wld s1) \<longrightarrow> gerr s1 \<noteq> None))
       \<and> (\<forall>e. gerr s = Some e \<longrightarrow>
            (\<exists>c. e = AcceptFailed (forwardFromName (tun (wld s))) (fromEndpoint (tun (wld s))) c
                 \<or> e = SSHDialFailed (server (tun (wld s))) c))"
proof -
  from assms have inv: "inv_threads s" "inv_group s" "inv_errors s"
    by (auto dest: reachable_inv simp: run_inv_def)
  have a: "\<forall>i c s'. forwardType (tun (wld s)) = Local \<and> active (tun (wld s)) = 0
             \<and> exec (AddConn i (Inl c)) s = Some s' \<longrightarrow>
            handlers s' ! i = (fst (handlers s ! i),
                               H_Done (Some (SSHDialFailed (server (tun (wld s))) c)))
          \<and> gcancelled s'
          \<and> (gerr s = None \<longrightarrow> gerr s' = Some (SSHDialFailed (server (tun (wld s))) c))
          \<and> tun (wld s') = tun (wld s)
          \<and> events (wld s') = events (wld s) @ [SSHDial (server (tun (wld s))) (Inl c)]"
    by (auto simp: exec_def handler_at_def addConn_def Let_def set_handler_def group_return_def
        split: if_splits)
  have b: "\<forall>i e. i < length (handlers s) \<and> snd (handlers s ! i) = H_Done (Some e) \<longrightarrow>
            (\<exists>c. e = SSHDialFailed (server (tun (wld s))) c) \<and> gcancelled s \<and> gerr s \<noteq> None"
    using inv(3) unfolding inv_errors_def by blast
  have c: "\<forall>l. gcancelled s \<and> listenpc s = L_WaitDone \<and> crashed s = None \<and> lis s = Some l \<longrightarrow>
            exec ListenWake s = Some (s\<lparr>listenpc := L_Wait, closed := True\<rparr>)"
    using inv(1) by (auto simp: exec_def inv_threads_def)
  have w: "\<forall>s'. exec ListenWait s = Some s' \<longrightarrow>
            listenpc s = L_Wait \<and> accept_done (acceptpc s) \<and> list_all handler_done (handlers s)
          \<and> s' = s\<lparr>listenpc := L_Select (gerr s), gcancelled := True\<rparr>"
    by (auto simp: exec_def split: if_splits)
  have d: "\<forall>acts1 acts2 s1 s2 r.
            run acts1 (init_sys w0) = Some s1 \<and> exec ListenSelect s1 = Some s2
            \<and> run acts2 s2 = Some s \<and> mainpc s = M_Returned r \<longrightarrow>
              r = (if tun_ctx_done (wld s1) then None else gerr s1)
            \<and> (\<not> tun_ctx_done (wld s1) \<longrightarrow> gerr s1 \<noteq> None)"
    by (blast dest: return_follows_select)
  have e: "\<forall>e. gerr s = Some e \<longrightarrow>
            (\<exists>c. e = AcceptFailed (forwardFromName (tun (wld s))) (fromEndpoint (tun (wld s))) c
                 \<or> e = SSHDialFailed (server (tun (wld s))) c)"
    using inv(3) unfolding inv_errors_def by blast
  from a b c w d e show ?thesis by blast
qed

theorem addConn_dial_failure_is_fatal_witness:
  "\<exists>s1 s. run sched_dial_failed (init_sys (new_world tun_demo)) = Some s1
      \<and> run sched_dial_fails (init_sys (new_world tun_demo)) = Some s
      \<and> \<not> tun_ctx_done (wld s1)
      \<and> gerr s1 = Some (SSHDialFailed (NewTCPEndpoint ''my.super.host.com'' 22) ''refused'')
      \<and> mainpc s = M_Returned (gerr s1)"
proof -
  let ?e = "SSHDialFailed (NewTCPEndpoint ''my.super.host.com'' 22) ''refused''"
  have eq: "sched_dial_fails = sched_dial_failed @ ListenSelect # [Receive]"
    by (simp add: sched_dial_fails_def sched_dial_failed_def)
  have "run sched_dial_fails (init_sys (new_world tun_demo)) \<noteq> None" by code_simp
  then obtain s where s: "run sched_dial_fails (init_sys (new_world tun_demo)) = Some s"
    by blast
  from s obtain s1 s2 where
    p: "run sched_dial_failed (init_sys (new_world tun_demo)) = Some s1"
       "exec ListenSelect s1 = Some s2" "run [Receive] s2 = Some s"
    unfolding eq by (blast dest: run_split)
  have "map_option mainpc (run sched_dial_fails (init_sys (new_world tun_demo)))
          = Some (M_Returned (Some (SSHDialFailed (NewTCPEndpoint ''my.super.host.com'' 22)
                                      ''refused'')))" by code_simp
  with s have m: "mainpc s = M_Returned (Some ?e)" by simp
  have "map_option (tun_ctx_done \<circ> wld)
          (run sched_dial_failed (init_sys (new_world tun_demo))) = Some False" by code_simp
  with p(1) have nd: "\<not> tun_ctx_done (wld s1)" by simp
  from addConn_dial_failure_is_fatal [OF s]
  have "\<forall>acts1 acts2 s1 s2 r.
            run acts1 (init_sys (new_world tun_demo)) = Some s1 \<and> exec ListenSelect s1 = Some s2
            \<and> run acts2 s2 = Some s \<and> mainpc s = M_Returned r \<longrightarrow>
              r = (if tun_ctx_done (wld s1) then None else gerr s1)
            \<and> (\<not> tun_ctx_done (wld s1) \<longrightarrow> gerr s1 \<noteq> None)"
    by (rule conjunct1 [OF conjunct2 [OF conjunct2 [OF conjunct2 [OF conjunct2]]]])
  with p m have "Some ?e = (if tun_ctx_done (wld s1) then None else gerr s1)" by blast
  with nd have g: "gerr s1 = Some ?e" by simp
  with p(1) s m nd show ?thesis
    by (intro exI [of _ s1] exI [of _ s]) simp
qed

text \<open>
  C6, as the code has it. The claim that Started is notified before any notification of
  a connection fails: Start launches \<open>listen\<close> with \<open>go\<close> before it notifies Started. In
  the run below a connection is accepted and \<open>forward\<close> notifies its start before the
  caller of Start runs on.
\<close>

theorem started_after_connection_notification:
  "map_option (events \<circ> wld) (run sched_conn_first (init_sys (new_world tun_demo)))
     = Some [ConnStateCall StateStarting,
             SSHDial (NewTCPEndpoint ''my.super.host.com'' 22) (Inr 9),
             TunneledConnStateCall 0 ConnStarted,
             ConnStateCall StateStarted]
   \<and> map_option (notified_before StateStarted \<circ> events \<circ> wld)
        (run sched_conn_first (init_sys (new_world tun_demo))) = Some False"
  by code_simp

text \<open>
  C6, amended. With a tunnel-state callback registered, in every run of Start the
  Starting notification comes before every notification of a connection.
\<close>

theorem starting_before_connection_notifications:
  assumes "run acts (init_sys w0) = Some s" "connState (tun w0) \<noteq> None"
  shows "\<exists>new. events (wld s) = events w0 @ new \<and> notified_before StateStarting new"
  using reachable_inv [OF assms(1)] assms(2) by (auto simp: run_inv_def inv_order_def)

theorem starting_before_connection_notifications_witness:
  "\<exists>s. run sched_conn_first (init_sys (new_world tun_demo)) = Some s
      \<and> connState (tun (new_world tun_demo)) \<noteq> None
      \<and> events (wld s)
          = [ConnStateCall StateStarting,
             SSHDial (NewTCPEndpoint ''my.super.host.com'' 22) (Inr 9),
             TunneledConnStateCall 0 ConnStarted,
             ConnStateCall StateStarted]
      \<and> notified_before StateStarting (events (wld s))"
proof -
  have "run sched_conn_first (init_sys (new_world tun_demo)) \<noteq> None" by code_simp
  then obtain s where s: "run sched_conn_first (init_sys (new_world tun_demo)) = Some s"
    by blast
  have c: "connState (tun (new_world tun_demo)) \<noteq> None"
    by (simp add: new_world_def tun_demo_def SetConnState_def SetTunneledConnState_def)
  have "map_option (events \<circ> wld) (run sched_conn_first (init_sys (new_world tun_demo)))
     = Some [ConnStateCall StateStarting,
             SSHDial (NewTCPEndpoint ''my.super.host.com'' 22) (Inr 9),
             TunneledConnStateCall 0 ConnStarted,
             ConnStateCall StateStarted]" by code_simp
  with s have e: "events (wld s) = [ConnStateCall StateStarting,
             SSHDial (NewTCPEndpoint ''my.super.host.com'' 22) (Inr 9),
             TunneledConnStateCall 0 ConnStarted,
             ConnStateCall StateStarted]" by simp
  have "events (new_world tun_demo) = []" by (simp add: new_world_def)
  with starting_before_connection_notifications [OF s c]
  have "notified_before StateStarting (events (wld s))" by auto
  with s c e show ?thesis by blast
qed

end
